theory Spec2Isabelle
  imports Main "HOL-Library.Word"
begin

unbundle bit_operations_syntax


section \<open>LRU replacer (src/buffer/lru_replacer.cpp)\<close>

text \<open>
  Frame and page identifiers are 32-bit signed integers in the source. No arithmetic is
  performed on frame identifiers; the one place where page identifiers are added (the
  allocation counter of the buffer pool) writes the wrap-around out.

  The replacer keeps a doubly linked list \<open>frames_\<close> of frame ids and a hash map
  \<open>frames_table_\<close> from a frame id to the list iterator of its node. An iterator is a
  handle to one node that stays valid while other nodes are inserted or erased, so every
  node carries an identity here: a natural number drawn from \<open>next_node\<close> when the
  node is created. Erasing through an iterator removes the node with that identity.
  The front of the list is the least recently unpinned frame.
\<close>

type_synonym frame_id_t = int
type_synonym page_id_t = int

record LRUReplacer =
  frames :: "(nat \<times> frame_id_t) list"
  frames_table :: "frame_id_t \<rightharpoonup> nat"
  next_node :: nat

definition LRUReplacer_new :: LRUReplacer where
  "LRUReplacer_new = \<lparr>frames = [], frames_table = Map.empty, next_node = 0\<rparr>"

definition Victim :: "LRUReplacer \<Rightarrow> frame_id_t option \<times> LRUReplacer" where
  "Victim r =
     (case frames r of
        [] \<Rightarrow> (None, r)
      | nd # rest \<Rightarrow>
          (Some (snd nd),
           r\<lparr>frames := rest, frames_table := (frames_table r)(snd nd := None)\<rparr>))"

definition Pin :: "frame_id_t \<Rightarrow> LRUReplacer \<Rightarrow> LRUReplacer" where
  "Pin frame_id r =
     (case frames_table r frame_id of
        None \<Rightarrow> r
      | Some it \<Rightarrow>
          r\<lparr>frames := filter (\<lambda>nd. fst nd \<noteq> it) (frames r),
            frames_table := (frames_table r)(frame_id := None)\<rparr>)"

definition Unpin :: "frame_id_t \<Rightarrow> LRUReplacer \<Rightarrow> LRUReplacer" where
  "Unpin frame_id r =
     (case frames_table r frame_id of
        Some it \<Rightarrow> r
      | None \<Rightarrow>
          r\<lparr>frames := frames r @ [(next_node r, frame_id)],
            frames_table := (frames_table r)(frame_id \<mapsto> next_node r),
            next_node := Suc (next_node r)\<rparr>)"

definition Size :: "LRUReplacer \<Rightarrow> nat" where
  "Size r = length (frames r)"

text \<open>Sequences of replacer calls, run from the freshly constructed replacer.\<close>

datatype lru_op = OpVictim | OpPin frame_id_t | OpUnpin frame_id_t

fun lru_step :: "LRUReplacer \<Rightarrow> lru_op \<Rightarrow> LRUReplacer" where
  "lru_step r OpVictim = snd (Victim r)"
| "lru_step r (OpPin f) = Pin f r"
| "lru_step r (OpUnpin f) = Unpin f r"

definition lru_run :: "lru_op list \<Rightarrow> LRUReplacer" where
  "lru_run ops = foldl lru_step LRUReplacer_new ops"

definition tracked :: "LRUReplacer \<Rightarrow> frame_id_t list" where
  "tracked r = map snd (frames r)"

text \<open>
  The class invariant: node identities increase along the list (a node is created by the
  \<open>Unpin\<close> that starts tracking its frame, so the order of identities is the order of
  those calls), the table maps exactly the listed frames to their own nodes, and every
  identity in use is below the next one to be handed out.
\<close>

definition lru_inv :: "LRUReplacer \<Rightarrow> bool" where
  "lru_inv r \<longleftrightarrow>
     sorted_wrt (<) (map fst (frames r)) \<and>
     (\<forall>n f. (n, f) \<in> set (frames r) \<longleftrightarrow> frames_table r f = Some n) \<and>
     (\<forall>nd \<in> set (frames r). fst nd < next_node r)"

lemma lru_inv_new: "lru_inv LRUReplacer_new"
  by (simp add: lru_inv_def LRUReplacer_new_def)

lemma node_unique:
  "sorted_wrt (<) (map fst (xs :: (nat \<times> 'a) list)) \<Longrightarrow> (n, f) \<in> set xs \<Longrightarrow> (n, g) \<in> set xs \<Longrightarrow> f = g"
  using eq_key_imp_eq_value [of xs n f g] strict_sorted_iff [of "map fst xs"] by simp

lemma lru_inv_Victim: "lru_inv r \<Longrightarrow> lru_inv (snd (Victim r))"
proof (cases "frames r")
  case Nil
  then show "lru_inv r \<Longrightarrow> ?thesis" by (simp add: Victim_def)
next
  case (Cons nd rest)
  assume inv: "lru_inv r"
  obtain a b where nd: "nd = (a, b)" by (cases nd)
  have srt: "sorted_wrt (<) (map fst (frames r))"
    and tab: "\<And>n f. (n, f) \<in> set (frames r) \<longleftrightarrow> frames_table r f = Some n"
    and bnd: "\<forall>x \<in> set (frames r). fst x < next_node r"
    using inv by (auto simp: lru_inv_def)
  have notin: "(n, b) \<notin> set rest" for n
  proof
    assume m: "(n, b) \<in> set rest"
    then have "(n, b) \<in> set (frames r)" by (simp add: Cons)
    moreover have "(a, b) \<in> set (frames r)" by (simp add: Cons nd)
    ultimately have "n = a" using tab by simp
    moreover have "a < n" using srt m by (auto simp: Cons nd)
    ultimately show False by simp
  qed
  have "(n, f) \<in> set rest \<longleftrightarrow> ((frames_table r)(b := None)) f = Some n" for n f
  proof (cases "f = b")
    case True
    then show ?thesis using notin by simp
  next
    case False
    then show ?thesis using tab [of n f] by (auto simp: Cons nd)
  qed
  then show ?thesis
    using srt bnd by (simp add: Victim_def Cons nd lru_inv_def)
qed

lemma lru_inv_Pin: "lru_inv r \<Longrightarrow> lru_inv (Pin f r)"
proof (cases "frames_table r f")
  case None
  then show "lru_inv r \<Longrightarrow> ?thesis" by (simp add: Pin_def)
next
  case (Some it)
  assume inv: "lru_inv r"
  have srt: "sorted_wrt (<) (map fst (frames r))"
    and tab: "\<And>n f. (n, f) \<in> set (frames r) \<longleftrightarrow> frames_table r f = Some n"
    and bnd: "\<forall>x \<in> set (frames r). fst x < next_node r"
    using inv by (auto simp: lru_inv_def)
  let ?fs = "filter (\<lambda>nd. fst nd \<noteq> it) (frames r)"
  have a: "sorted_wrt (<) (map fst ?fs)"
    using srt by (simp add: sorted_wrt_map sorted_wrt_filter)
  have b: "(n, g) \<in> set ?fs \<longleftrightarrow> ((frames_table r)(f := None)) g = Some n" for n g
  proof (cases "g = f")
    case True
    then show ?thesis using tab [of n f] Some by auto
  next
    case False
    have "n \<noteq> it" if "(n, g) \<in> set (frames r)"
    proof
      assume "n = it"
      moreover have "(it, f) \<in> set (frames r)" using tab Some by simp
      ultimately show False using node_unique [OF srt, of it g f] that False by simp
    qed
    then show ?thesis using tab [of n g] False by auto
  qed
  show ?thesis
    using a b bnd by (simp add: Pin_def Some lru_inv_def)
qed

lemma lru_inv_Unpin: "lru_inv r \<Longrightarrow> lru_inv (Unpin f r)"
proof (cases "frames_table r f")
  case (Some it)
  then show "lru_inv r \<Longrightarrow> ?thesis" by (simp add: Unpin_def)
next
  case None
  assume inv: "lru_inv r"
  have srt: "sorted_wrt (<) (map fst (frames r))"
    and tab: "\<And>n f. (n, f) \<in> set (frames r) \<longleftrightarrow> frames_table r f = Some n"
    and bnd: "\<forall>x \<in> set (frames r). fst x < next_node r"
    using inv by (auto simp: lru_inv_def)
  have a: "sorted_wrt (<) (map fst (frames r @ [(next_node r, f)]))"
    using srt bnd by (simp add: sorted_wrt_append)
  have b: "(n, g) \<in> set (frames r @ [(next_node r, f)]) \<longleftrightarrow>
           ((frames_table r)(f \<mapsto> next_node r)) g = Some n" for n g
    using tab [of n g] None by auto
  have c: "\<forall>x \<in> set (frames r @ [(next_node r, f)]). fst x < Suc (next_node r)"
    using bnd by auto
  show ?thesis
    using a b c by (simp add: Unpin_def None lru_inv_def)
qed

lemma lru_inv_step: "lru_inv r \<Longrightarrow> lru_inv (lru_step r x)"
  by (cases x) (simp_all add: lru_inv_Victim lru_inv_Pin lru_inv_Unpin)

lemma lru_inv_foldl: "lru_inv r \<Longrightarrow> lru_inv (foldl lru_step r ops)"
  by (induction ops arbitrary: r) (simp_all add: lru_inv_step)

lemma lru_inv_run: "lru_inv (lru_run ops)"
  by (simp add: lru_run_def lru_inv_foldl lru_inv_new)

lemma lru_inv_tracked_iff: "lru_inv r \<Longrightarrow> f \<in> set (tracked r) \<longleftrightarrow> frames_table r f \<noteq> None"
proof -
  assume inv: "lru_inv r"
  have tab: "\<And>n f. (n, f) \<in> set (frames r) \<longleftrightarrow> frames_table r f = Some n"
    using inv by (auto simp: lru_inv_def)
  have "f \<in> set (tracked r) \<longleftrightarrow> (\<exists>n. (n, f) \<in> set (frames r))"
    by (force simp: tracked_def image_iff)
  then show ?thesis using tab by auto
qed

lemma lru_inv_distinct: "lru_inv r \<Longrightarrow> distinct (tracked r)"
proof -
  assume inv: "lru_inv r"
  have srt: "sorted_wrt (<) (map fst (frames r))"
    and tab: "\<And>n f. (n, f) \<in> set (frames r) \<longleftrightarrow> frames_table r f = Some n"
    using inv by (auto simp: lru_inv_def)
  have "distinct (map fst (frames r))" using srt strict_sorted_iff by blast
  then have d: "distinct (frames r)" by (simp add: distinct_map)
  have "inj_on snd (set (frames r))"
  proof (rule inj_onI)
    fix x y assume xy: "x \<in> set (frames r)" "y \<in> set (frames r)" "snd x = snd y"
    have "frames_table r (snd x) = Some (fst x)" using tab [of "fst x" "snd x"] xy(1) by simp
    moreover have "frames_table r (snd y) = Some (fst y)" using tab [of "fst y" "snd y"] xy(2) by simp
    ultimately have "fst x = fst y" using xy(3) by simp
    then show "x = y" using xy(3) by (simp add: prod_eq_iff)
  qed
  then show ?thesis using d by (simp add: tracked_def distinct_map)
qed

lemma Pin_tracked: "lru_inv r \<Longrightarrow> tracked (Pin f r) = removeAll f (tracked r)"
proof (cases "frames_table r f")
  case None
  assume inv: "lru_inv r"
  then have "f \<notin> set (tracked r)" using None by (simp add: lru_inv_tracked_iff)
  then show ?thesis using None by (simp add: Pin_def)
next
  case (Some it)
  assume inv: "lru_inv r"
  have srt: "sorted_wrt (<) (map fst (frames r))"
    and tab: "\<And>n f. (n, f) \<in> set (frames r) \<longleftrightarrow> frames_table r f = Some n"
    using inv by (auto simp: lru_inv_def)
  have "fst nd \<noteq> it \<longleftrightarrow> snd nd \<noteq> f" if "nd \<in> set (frames r)" for nd
  proof -
    obtain n g where nd: "nd = (n, g)" by (cases nd)
    have "(it, f) \<in> set (frames r)" using tab Some by simp
    then show ?thesis
      using that nd node_unique [OF srt, of it g f] tab [of n f] Some by auto
  qed
  then have "filter (\<lambda>nd. fst nd \<noteq> it) (frames r) = filter (\<lambda>nd. snd nd \<noteq> f) (frames r)"
    by (simp cong: filter_cong)
  then show ?thesis
    by (simp add: Pin_def Some tracked_def removeAll_filter_not_eq filter_map comp_def eq_commute)
qed


text \<open>
  The replacer as the specification words it: a queue of frame ids without duplicates,
  \<open>Victim\<close> takes the front, \<open>Pin\<close> deletes the frame, \<open>Unpin\<close> appends the frame
  unless it is already queued.
\<close>

fun lru_spec_step :: "frame_id_t list \<Rightarrow> lru_op \<Rightarrow> frame_id_t list" where
  "lru_spec_step q OpVictim = tl q"
| "lru_spec_step q (OpPin f) = removeAll f q"
| "lru_spec_step q (OpUnpin f) = (if f \<in> set q then q else q @ [f])"

lemma Victim_tracked: "tracked (snd (Victim r)) = tl (tracked r)"
  by (cases "frames r") (simp_all add: Victim_def tracked_def)

lemma Victim_result: "fst (Victim r) = (case tracked r of [] \<Rightarrow> None | f # _ \<Rightarrow> Some f)"
  by (cases "frames r") (simp_all add: Victim_def tracked_def)

lemma Victim_empty: "tracked r = [] \<Longrightarrow> Victim r = (None, r)"
  by (cases "frames r") (simp_all add: Victim_def tracked_def)

lemma Unpin_tracked_same: "lru_inv r \<Longrightarrow> f \<in> set (tracked r) \<Longrightarrow> Unpin f r = r"
  by (auto simp: lru_inv_tracked_iff Unpin_def)

lemma Unpin_tracked_new:
  "lru_inv r \<Longrightarrow> f \<notin> set (tracked r) \<Longrightarrow> tracked (Unpin f r) = tracked r @ [f]"
proof -
  assume "lru_inv r" "f \<notin> set (tracked r)"
  then have "frames_table r f = None" by (simp add: lru_inv_tracked_iff)
  then show ?thesis by (simp add: Unpin_def tracked_def)
qed

lemma Pin_untracked: "lru_inv r \<Longrightarrow> f \<notin> set (tracked r) \<Longrightarrow> Pin f r = r"
  by (simp add: lru_inv_tracked_iff Pin_def)

lemma lru_step_spec: "lru_inv r \<Longrightarrow> tracked (lru_step r x) = lru_spec_step (tracked r) x"
  by (cases x) (simp_all add: Victim_tracked Pin_tracked Unpin_tracked_same Unpin_tracked_new)

lemma lru_foldl_spec:
  "lru_inv r \<Longrightarrow> tracked (foldl lru_step r ops) = foldl lru_spec_step (tracked r) ops"
  by (induction ops arbitrary: r) (simp_all add: lru_step_spec lru_inv_step)

text \<open>
  Claim C9. After every sequence of replacer operations: the tracked frames are distinct
  and are exactly the queue of the specification; \<open>Victim\<close> fails exactly when no frame
  is tracked (and then changes nothing), and otherwise removes and returns the front of the
  queue, which is the least recently unpinned frame; \<open>Unpin\<close> of a tracked frame leaves
  the replacer unchanged (so the frame keeps its position) and \<open>Unpin\<close> of an untracked
  frame appends it at the most-recently-unpinned end; \<open>Pin\<close> removes a tracked frame,
  keeping the order of the others, and leaves the replacer unchanged for an untracked one.
\<close>

theorem lru_replacer_contract:
  "distinct (tracked (lru_run ops)) \<and>
   Size (lru_run ops) = length (tracked (lru_run ops)) \<and>
   tracked (lru_run ops) = foldl lru_spec_step [] ops \<and>
   (fst (Victim (lru_run ops)) = None \<longleftrightarrow> tracked (lru_run ops) = []) \<and>
   (tracked (lru_run ops) = [] \<longrightarrow> Victim (lru_run ops) = (None, lru_run ops)) \<and>
   (\<forall>f rest. tracked (lru_run ops) = f # rest \<longrightarrow>
      fst (Victim (lru_run ops)) = Some f \<and> tracked (snd (Victim (lru_run ops))) = rest) \<and>
   (\<forall>f. f \<in> set (tracked (lru_run ops)) \<longrightarrow> Unpin f (lru_run ops) = lru_run ops) \<and>
   (\<forall>f. f \<notin> set (tracked (lru_run ops)) \<longrightarrow>
      tracked (Unpin f (lru_run ops)) = tracked (lru_run ops) @ [f]) \<and>
   (\<forall>f. f \<in> set (tracked (lru_run ops)) \<longrightarrow>
      tracked (Pin f (lru_run ops)) = removeAll f (tracked (lru_run ops))) \<and>
   (\<forall>f. f \<notin> set (tracked (lru_run ops)) \<longrightarrow> Pin f (lru_run ops) = lru_run ops)"
proof -
  define r where "r = lru_run ops"
  have inv: "lru_inv r" by (simp add: r_def lru_inv_run)
  have spec: "tracked r = foldl lru_spec_step [] ops"
    using lru_foldl_spec [OF lru_inv_new, of ops]
    by (simp add: r_def lru_run_def tracked_def LRUReplacer_new_def)
  have c1: "distinct (tracked r)" using inv by (rule lru_inv_distinct)
  have c2: "Size r = length (tracked r)" by (simp add: Size_def tracked_def)
  have c4: "fst (Victim r) = None \<longleftrightarrow> tracked r = []"
    by (simp add: Victim_result split: list.split)
  have c5: "tracked r = [] \<longrightarrow> Victim r = (None, r)"
    by (simp add: Victim_empty)
  have c6: "\<forall>f rest. tracked r = f # rest \<longrightarrow>
      fst (Victim r) = Some f \<and> tracked (snd (Victim r)) = rest"
    by (simp add: Victim_result Victim_tracked)
  have c7: "\<forall>f. f \<in> set (tracked r) \<longrightarrow> Unpin f r = r"
    using inv by (simp add: Unpin_tracked_same)
  have c8: "\<forall>f. f \<notin> set (tracked r) \<longrightarrow> tracked (Unpin f r) = tracked r @ [f]"
    using inv by (simp add: Unpin_tracked_new)
  have c9: "\<forall>f. f \<in> set (tracked r) \<longrightarrow> tracked (Pin f r) = removeAll f (tracked r)"
    using inv by (simp add: Pin_tracked)
  have c10: "\<forall>f. f \<notin> set (tracked r) \<longrightarrow> Pin f r = r"
    using inv by (simp add: Pin_untracked)
  show ?thesis
    unfolding r_def [symmetric]
    using c1 c2 spec c4 c5 c6 c7 c8 c9 c10 by blast
qed

theorem lru_replacer_contract_witness:
  "tracked (lru_run [OpUnpin 1, OpUnpin 2, OpUnpin 3, OpUnpin 1, OpPin 2]) = [1, 3] \<and>
   fst (Victim (lru_run [OpUnpin 1, OpUnpin 2, OpUnpin 3, OpUnpin 1, OpPin 2])) = Some 1 \<and>
   tracked (snd (Victim (lru_run [OpUnpin 1, OpUnpin 2, OpUnpin 3, OpUnpin 1, OpPin 2]))) = [3] \<and>
   Unpin 3 (lru_run [OpUnpin 1, OpUnpin 2, OpUnpin 3, OpUnpin 1, OpPin 2]) =
     lru_run [OpUnpin 1, OpUnpin 2, OpUnpin 3, OpUnpin 1, OpPin 2] \<and>
   tracked (Unpin 2 (lru_run [OpUnpin 1, OpUnpin 2, OpUnpin 3, OpUnpin 1, OpPin 2])) = [1, 3, 2] \<and>
   tracked (Pin 1 (lru_run [OpUnpin 1, OpUnpin 2, OpUnpin 3, OpUnpin 1, OpPin 2])) = [3] \<and>
   Pin 7 (lru_run [OpUnpin 1, OpUnpin 2, OpUnpin 3, OpUnpin 1, OpPin 2]) =
     lru_run [OpUnpin 1, OpUnpin 2, OpUnpin 3, OpUnpin 1, OpPin 2]"
proof -
  have t: "tracked (lru_run [OpUnpin 1, OpUnpin 2, OpUnpin 3, OpUnpin 1, OpPin 2]) = [1, 3]"
    using lru_replacer_contract [of "[OpUnpin 1, OpUnpin 2, OpUnpin 3, OpUnpin 1, OpPin 2]"]
    by simp
  show ?thesis
    using lru_replacer_contract [of "[OpUnpin 1, OpUnpin 2, OpUnpin 3, OpUnpin 1, OpPin 2]"]
    unfolding t by simp
qed

section \<open>Buffer pool manager instance (src/buffer/buffer_pool_manager_instance.cpp)\<close>

text \<open>
  A frame is a \<open>Page\<close> object: its bytes and the metadata \<open>page_id_\<close>,
  \<open>pin_count_\<close> (an \<open>int\<close>) and \<open>is_dirty_\<close>. The disk manager is an external
  collaborator; all the pool does with it in the functions below is \<open>WritePage\<close>, which
  is modelled as storing the bytes under the page id.

  The allocation counter \<open>next_page_id_\<close> is a 32-bit signed atomic and
  \<open>num_instances_\<close> a 32-bit unsigned integer: the addition wraps (\<open>wrap_int32\<close>), and
  the comparison in \<open>ValidatePageId\<close> is carried out on the unsigned value of the page id
  (\<open>to_uint32\<close>). The assertion of \<open>ValidatePageId\<close> and an index outside the frame
  array are results of their own.
\<close>

definition INVALID_PAGE_ID :: page_id_t where
  "INVALID_PAGE_ID = - 1"

definition PAGE_SIZE :: nat where
  "PAGE_SIZE = 4096"

record Page =
  data :: "8 word list"
  page_id :: page_id_t
  pin_count :: int
  is_dirty :: bool

definition Page_new :: Page where
  "Page_new = \<lparr>data = replicate PAGE_SIZE 0, page_id = INVALID_PAGE_ID, pin_count = 0, is_dirty = False\<rparr>"

definition ResetMemory :: "Page \<Rightarrow> Page" where
  "ResetMemory pg = pg\<lparr>data := replicate PAGE_SIZE 0\<rparr>"

record BufferPoolManagerInstance =
  pool_size :: nat
  num_instances :: nat
  instance_index :: nat
  next_page_id :: page_id_t
  pages :: "Page list"
  replacer :: LRUReplacer
  free_list :: "frame_id_t list"
  page_table :: "page_id_t \<rightharpoonup> frame_id_t"
  disk :: "page_id_t \<rightharpoonup> 8 word list"

datatype bpm_fault = ValidatePageIdAssert | FrameOutOfRange

definition wrap_int32 :: "int \<Rightarrow> int" where
  "wrap_int32 x = (x + 2 ^ 31) mod 2 ^ 32 - 2 ^ 31"

definition to_uint32 :: "int \<Rightarrow> nat" where
  "to_uint32 x = nat (x mod 2 ^ 32)"

definition BufferPoolManagerInstance_new :: "nat \<Rightarrow> nat \<Rightarrow> nat \<Rightarrow> BufferPoolManagerInstance" where
  "BufferPoolManagerInstance_new n_frames n_instances index =
     \<lparr>pool_size = n_frames, num_instances = n_instances, instance_index = index,
      next_page_id = int index,
      pages = replicate n_frames Page_new,
      replacer = LRUReplacer_new,
      free_list = map int [0..<n_frames],
      page_table = Map.empty,
      disk = Map.empty\<rparr>"

definition WritePage :: "BufferPoolManagerInstance \<Rightarrow> page_id_t \<Rightarrow> 8 word list \<Rightarrow> BufferPoolManagerInstance" where
  "WritePage s pid bytes = s\<lparr>disk := (disk s)(pid \<mapsto> bytes)\<rparr>"

definition ValidatePageId :: "BufferPoolManagerInstance \<Rightarrow> page_id_t \<Rightarrow> bool" where
  "ValidatePageId s pid \<longleftrightarrow> to_uint32 pid mod num_instances s = instance_index s"

definition AllocatePage :: "BufferPoolManagerInstance \<Rightarrow> bpm_fault + page_id_t \<times> BufferPoolManagerInstance" where
  "AllocatePage s =
     (let next = next_page_id s;
          s1 = s\<lparr>next_page_id := wrap_int32 (next_page_id s + int (num_instances s))\<rparr>
      in if ValidatePageId s1 next then Inr (next, s1) else Inl ValidatePageIdAssert)"

definition frame_ok :: "BufferPoolManagerInstance \<Rightarrow> frame_id_t \<Rightarrow> bool" where
  "frame_ok s f \<longleftrightarrow> 0 \<le> f \<and> nat f < length (pages s)"

definition set_page :: "BufferPoolManagerInstance \<Rightarrow> frame_id_t \<Rightarrow> Page \<Rightarrow> BufferPoolManagerInstance" where
  "set_page s f pg = s\<lparr>pages := (pages s)[nat f := pg]\<rparr>"

definition pick_frame :: "BufferPoolManagerInstance \<Rightarrow> frame_id_t \<times> BufferPoolManagerInstance" where
  "pick_frame s =
     (if free_list s \<noteq> [] then (hd (free_list s), s\<lparr>free_list := tl (free_list s)\<rparr>)
      else (case Victim (replacer s) of
              (Some f, r) \<Rightarrow> (f, s\<lparr>replacer := r\<rparr>)
            | (None, r) \<Rightarrow> (- 1, s\<lparr>replacer := r\<rparr>)))"

definition NewPgImp ::
  "BufferPoolManagerInstance \<Rightarrow> bpm_fault + (page_id_t \<times> frame_id_t) option \<times> BufferPoolManagerInstance" where
  "NewPgImp s =
     (if Size (replacer s) = 0 \<and> free_list s = [] then Inr (None, s)
      else
        case pick_frame s of (frame_id, s1) \<Rightarrow>
        if \<not> frame_ok s1 frame_id then Inl FrameOutOfRange
        else
          let pg = pages s1 ! nat frame_id;
              s2 = (if is_dirty pg then WritePage s1 (page_id pg) (data pg) else s1);
              s3 = s2\<lparr>page_table := (page_table s2)(page_id pg := None)\<rparr>
          in
          case AllocatePage s3 of
            Inl e \<Rightarrow> Inl e
          | Inr (new_id, s4) \<Rightarrow>
              let pg1 = pg\<lparr>page_id := new_id\<rparr>;
                  pg2 = ResetMemory pg1;
                  pg3 = pg2\<lparr>pin_count := 0\<rparr>;
                  pg4 = pg3\<lparr>pin_count := pin_count pg3 + 1\<rparr>;
                  pg5 = pg4\<lparr>is_dirty := False\<rparr>;
                  s5 = set_page s4 frame_id pg5;
                  s6 = s5\<lparr>page_table := (page_table s5)(page_id pg5 \<mapsto> frame_id)\<rparr>
              in Inr (Some (new_id, frame_id), s6))"

definition DeletePgImp ::
  "BufferPoolManagerInstance \<Rightarrow> page_id_t \<Rightarrow> bpm_fault + bool \<times> BufferPoolManagerInstance" where
  "DeletePgImp s pid =
     (case page_table s pid of
        None \<Rightarrow> Inr (True, s)
      | Some frame_id \<Rightarrow>
          if \<not> frame_ok s frame_id then Inl FrameOutOfRange
          else
            let pg = pages s ! nat frame_id in
            if pin_count pg \<noteq> 0 then Inr (False, s)
            else
              let s1 = (if is_dirty pg then WritePage s (page_id pg) (data pg) else s);
                  pg1 = ResetMemory pg;
                  pg2 = pg1\<lparr>page_id := INVALID_PAGE_ID\<rparr>;
                  pg3 = pg2\<lparr>is_dirty := False\<rparr>;
                  s2 = set_page s1 frame_id pg3;
                  s3 = s2\<lparr>free_list := free_list s2 @ [frame_id]\<rparr>;
                  s4 = s3\<lparr>replacer := Pin frame_id (replacer s3)\<rparr>;
                  s5 = s4\<lparr>page_table := (page_table s4)(pid := None)\<rparr>
              in Inr (True, s5))"

definition UnpinPgImp ::
  "BufferPoolManagerInstance \<Rightarrow> page_id_t \<Rightarrow> bool \<Rightarrow> bpm_fault + bool \<times> BufferPoolManagerInstance" where
  "UnpinPgImp s pid dirty_arg =
     (case page_table s pid of
        None \<Rightarrow> Inr (False, s)
      | Some frame_id \<Rightarrow>
          if \<not> frame_ok s frame_id then Inl FrameOutOfRange
          else
            let pg = pages s ! nat frame_id;
                pg1 = pg\<lparr>is_dirty := dirty_arg \<or> is_dirty pg\<rparr>;
                pg2 = pg1\<lparr>pin_count := pin_count pg1 - 1\<rparr>;
                s1 = set_page s frame_id pg2;
                s2 = (if pin_count pg2 = 0 then s1\<lparr>replacer := Unpin frame_id (replacer s1)\<rparr> else s1)
            in Inr (True, s2))"


text \<open>
  The state invariant used below: the replacer is well formed, every frame id held in the
  free list, the replacer or the page table indexes the frame array, there is at least one
  instance, and the allocation counter is congruent to the instance index (as the
  constructor establishes and the assertion in \<open>AllocatePage\<close> demands).
\<close>

definition bpm_inv :: "BufferPoolManagerInstance \<Rightarrow> bool" where
  "bpm_inv s \<longleftrightarrow>
     lru_inv (replacer s) \<and>
     (\<forall>f \<in> set (free_list s). frame_ok s f) \<and>
     (\<forall>f \<in> set (tracked (replacer s)). frame_ok s f) \<and>
     (\<forall>p f. page_table s p = Some f \<longrightarrow> frame_ok s f) \<and>
     0 < num_instances s \<and>
     ValidatePageId s (next_page_id s)"

definition victim_frame :: "BufferPoolManagerInstance \<Rightarrow> frame_id_t" where
  "victim_frame s = (if free_list s \<noteq> [] then hd (free_list s) else hd (tracked (replacer s)))"

lemma Size_0_iff: "Size r = 0 \<longleftrightarrow> tracked r = []"
  by (simp add: Size_def tracked_def)

lemma pick_frame_eq:
  "\<not> (free_list s = [] \<and> tracked (replacer s) = []) \<Longrightarrow>
   pick_frame s =
     (victim_frame s,
      if free_list s \<noteq> [] then s\<lparr>free_list := tl (free_list s)\<rparr>
      else s\<lparr>replacer := snd (Victim (replacer s))\<rparr>)"
  by (cases "frames (replacer s)")
     (auto simp: pick_frame_def victim_frame_def Victim_def tracked_def)

lemma victim_frame_ok:
  "bpm_inv s \<Longrightarrow> \<not> (free_list s = [] \<and> tracked (replacer s) = []) \<Longrightarrow> frame_ok s (victim_frame s)"
  by (auto simp: bpm_inv_def victim_frame_def)

lemma NewPgImp_none: "free_list s = [] \<Longrightarrow> tracked (replacer s) = [] \<Longrightarrow> NewPgImp s = Inr (None, s)"
  by (simp add: NewPgImp_def Size_0_iff)

lemma Page_all_fields:
  "(pg :: Page)\<lparr>page_id := a, data := b, pin_count := c, is_dirty := d\<rparr> =
     \<lparr>data = b, page_id = a, pin_count = c, is_dirty = d\<rparr>"
  by (cases pg) simp

lemma NewPgImp_some:
  assumes inv: "bpm_inv s" and avail: "\<not> (free_list s = [] \<and> tracked (replacer s) = [])"
  shows "NewPgImp s =
     Inr (Some (next_page_id s, victim_frame s),
          s\<lparr>next_page_id := wrap_int32 (next_page_id s + int (num_instances s)),
            free_list := tl (free_list s),
            replacer := (if free_list s \<noteq> [] then replacer s else snd (Victim (replacer s))),
            disk := (if is_dirty (pages s ! nat (victim_frame s))
                     then (disk s)(page_id (pages s ! nat (victim_frame s)) \<mapsto>
                                     data (pages s ! nat (victim_frame s)))
                     else disk s),
            page_table := ((page_table s)(page_id (pages s ! nat (victim_frame s)) := None))
                            (next_page_id s \<mapsto> victim_frame s),
            pages := (pages s)[nat (victim_frame s) :=
                        \<lparr>data = replicate PAGE_SIZE 0, page_id = next_page_id s,
                         pin_count = 1, is_dirty = False\<rparr>]\<rparr>)"
proof -
  have ok: "frame_ok s (victim_frame s)" using inv avail by (rule victim_frame_ok)
  have val: "ValidatePageId s (next_page_id s)" using inv by (simp add: bpm_inv_def)
  have nz: "\<not> (Size (replacer s) = 0 \<and> free_list s = [])" using avail by (auto simp: Size_0_iff)
  show ?thesis
  proof (cases "free_list s = []")
    case True
    then show ?thesis
      using ok val nz
      by (auto simp add: NewPgImp_def pick_frame_eq [OF avail] frame_ok_def AllocatePage_def
          ValidatePageId_def WritePage_def set_page_def ResetMemory_def Let_def Page_all_fields
          intro!: BufferPoolManagerInstance.equality)
  next
    case False
    then show ?thesis
      using ok val nz
      by (auto simp add: NewPgImp_def pick_frame_eq [OF avail] frame_ok_def AllocatePage_def
          ValidatePageId_def WritePage_def set_page_def ResetMemory_def Let_def Page_all_fields
          intro!: BufferPoolManagerInstance.equality)
  qed
qed

subsection \<open>FetchPage, and the frames of the pool\<close>

text \<open>
  Modelled from the spec: \<open>DiskManager::ReadPage\<close> is not part of the sources. The disk is
  the store of \<open>WritePage\<close>; a page that was never written reads as zeros.
\<close>

definition ReadPage :: "BufferPoolManagerInstance \<Rightarrow> page_id_t \<Rightarrow> 8 word list" where
  "ReadPage s pid = (case disk s pid of Some bytes \<Rightarrow> bytes | None \<Rightarrow> replicate PAGE_SIZE 0)"

definition FetchPgImp ::
  "BufferPoolManagerInstance \<Rightarrow> page_id_t
     \<Rightarrow> bpm_fault + frame_id_t option \<times> BufferPoolManagerInstance" where
  "FetchPgImp s pid =
     (case page_table s pid of
        Some frame_id \<Rightarrow>
          if \<not> frame_ok s frame_id then Inl FrameOutOfRange
          else
            let pg = pages s ! nat frame_id;
                pg1 = pg\<lparr>pin_count := pin_count pg + 1\<rparr>;
                s1 = set_page s frame_id pg1;
                s2 = s1\<lparr>replacer := Pin frame_id (replacer s1)\<rparr>
            in Inr (Some frame_id, s2)
      | None \<Rightarrow>
          if Size (replacer s) = 0 \<and> free_list s = [] then Inr (None, s)
          else
            case pick_frame s of (frame_id, s1) \<Rightarrow>
            if \<not> frame_ok s1 frame_id then Inl FrameOutOfRange
            else
              let pg = pages s1 ! nat frame_id;
                  s2 = (if is_dirty pg then WritePage s1 (page_id pg) (data pg) else s1);
                  s3 = s2\<lparr>page_table := (page_table s2)(page_id pg := None)\<rparr>;
                  s4 = s3\<lparr>page_table := (page_table s3)(pid \<mapsto> frame_id)\<rparr>;
                  pg1 = pg\<lparr>data := ReadPage s4 pid\<rparr>;
                  pg2 = pg1\<lparr>is_dirty := False\<rparr>;
                  pg3 = pg2\<lparr>pin_count := 0\<rparr>;
                  pg4 = pg3\<lparr>pin_count := pin_count pg3 + 1\<rparr>;
                  pg5 = pg4\<lparr>page_id := pid\<rparr>
              in Inr (Some frame_id, set_page s4 frame_id pg5))"

text \<open>
  \<open>frames_ok\<close>: the replacer is well formed and every frame id held in the free list, the
  replacer or the page table indexes the frame array. \<open>mapped_below\<close>: every page id of the
  page table is below the allocation counter.
\<close>

definition frames_ok :: "BufferPoolManagerInstance \<Rightarrow> bool" where
  "frames_ok s \<longleftrightarrow>
     lru_inv (replacer s) \<and>
     (\<forall>f \<in> set (free_list s). frame_ok s f) \<and>
     (\<forall>f \<in> set (tracked (replacer s)). frame_ok s f) \<and>
     (\<forall>p f. page_table s p = Some f \<longrightarrow> frame_ok s f)"

definition mapped_below :: "BufferPoolManagerInstance \<Rightarrow> bool" where
  "mapped_below s \<longleftrightarrow> (\<forall>p f. page_table s p = Some f \<longrightarrow> p < next_page_id s)"

datatype bpm_op =
  BpmNewPage | BpmFetchPage page_id_t | BpmUnpinPage page_id_t bool | BpmDeletePage page_id_t

text \<open>
  A sequence of pool operations, with the page ids that \<open>NewPage\<close> handed out so far, in
  order.
\<close>

fun bpm_run ::
  "BufferPoolManagerInstance \<Rightarrow> page_id_t list \<Rightarrow> bpm_op list
     \<Rightarrow> bpm_fault + page_id_t list \<times> BufferPoolManagerInstance" where
  "bpm_run s pids [] = Inr (pids, s)"
| "bpm_run s pids (BpmNewPage # ops) =
     (case NewPgImp s of
        Inl e \<Rightarrow> Inl e
      | Inr (None, s') \<Rightarrow> bpm_run s' pids ops
      | Inr (Some (pid, frame_id), s') \<Rightarrow> bpm_run s' (pids @ [pid]) ops)"
| "bpm_run s pids (BpmFetchPage pid # ops) =
     (case FetchPgImp s pid of
        Inl e \<Rightarrow> Inl e
      | Inr (r, s') \<Rightarrow> bpm_run s' pids ops)"
| "bpm_run s pids (BpmUnpinPage pid d # ops) =
     (case UnpinPgImp s pid d of
        Inl e \<Rightarrow> Inl e
      | Inr (r, s') \<Rightarrow> bpm_run s' pids ops)"
| "bpm_run s pids (BpmDeletePage pid # ops) =
     (case DeletePgImp s pid of
        Inl e \<Rightarrow> Inl e
      | Inr (r, s') \<Rightarrow> bpm_run s' pids ops)"

lemma frames_ok_new: "frames_ok (BufferPoolManagerInstance_new m n i)"
  by (auto simp add: frames_ok_def BufferPoolManagerInstance_new_def lru_inv_def frame_ok_def
      tracked_def LRUReplacer_new_def)

lemma mapped_below_new: "mapped_below (BufferPoolManagerInstance_new m n i)"
  by (simp add: mapped_below_def BufferPoolManagerInstance_new_def)

lemma frames_ok_victim:
  "frames_ok s \<Longrightarrow> \<not> (free_list s = [] \<and> tracked (replacer s) = []) \<Longrightarrow>
   frame_ok s (victim_frame s)"
  by (auto simp: frames_ok_def victim_frame_def)

lemma NewPgImp_result:
  assumes ok: "frame_ok s (victim_frame s)"
    and avail: "\<not> (free_list s = [] \<and> tracked (replacer s) = [])"
  shows "NewPgImp s =
     (if ValidatePageId s (next_page_id s) then
        Inr (Some (next_page_id s, victim_frame s),
          s\<lparr>next_page_id := wrap_int32 (next_page_id s + int (num_instances s)),
            free_list := tl (free_list s),
            replacer := (if free_list s \<noteq> [] then replacer s else snd (Victim (replacer s))),
            disk := (if is_dirty (pages s ! nat (victim_frame s))
                     then (disk s)(page_id (pages s ! nat (victim_frame s)) \<mapsto>
                                     data (pages s ! nat (victim_frame s)))
                     else disk s),
            page_table := ((page_table s)(page_id (pages s ! nat (victim_frame s)) := None))
                            (next_page_id s \<mapsto> victim_frame s),
            pages := (pages s)[nat (victim_frame s) :=
                        \<lparr>data = replicate PAGE_SIZE 0, page_id = next_page_id s,
                         pin_count = 1, is_dirty = False\<rparr>]\<rparr>)
      else Inl ValidatePageIdAssert)"
proof -
  have nz: "\<not> (Size (replacer s) = 0 \<and> free_list s = [])" using avail by (auto simp: Size_0_iff)
  show ?thesis
  proof (cases "free_list s = []")
    case True
    then show ?thesis
      using ok nz
      by (auto simp add: NewPgImp_def pick_frame_eq [OF avail] frame_ok_def AllocatePage_def
          ValidatePageId_def WritePage_def set_page_def ResetMemory_def Let_def Page_all_fields
          intro!: BufferPoolManagerInstance.equality)
  next
    case False
    then show ?thesis
      using ok nz
      by (auto simp add: NewPgImp_def pick_frame_eq [OF avail] frame_ok_def AllocatePage_def
          ValidatePageId_def WritePage_def set_page_def ResetMemory_def Let_def Page_all_fields
          intro!: BufferPoolManagerInstance.equality)
  qed
qed

lemma pick_frame_fields:
  "next_page_id (snd (pick_frame s)) = next_page_id s"
  "num_instances (snd (pick_frame s)) = num_instances s"
  "instance_index (snd (pick_frame s)) = instance_index s"
  "page_table (snd (pick_frame s)) = page_table s"
  "pages (snd (pick_frame s)) = pages s"
  by (auto simp add: pick_frame_def split: prod.splits option.splits)

lemma NewPgImp_allocates:
  assumes "NewPgImp s = Inr (Some (pid, fr), s')"
  shows "pid = next_page_id s"
    and "to_uint32 pid mod num_instances s = instance_index s"
    and "next_page_id s' = wrap_int32 (next_page_id s + int (num_instances s))"
    and "num_instances s' = num_instances s" and "instance_index s' = instance_index s"
    and "page_table s' =
           ((page_table s)(page_id (pages s ! nat fr) := None))(pid \<mapsto> fr)"
proof -
  obtain f s1 where p: "pick_frame s = (f, s1)" by (cases "pick_frame s")
  note pf = pick_frame_fields [of s, unfolded p snd_conv]
  have r: "pid = next_page_id s \<and> to_uint32 pid mod num_instances s = instance_index s \<and>
    next_page_id s' = wrap_int32 (next_page_id s + int (num_instances s)) \<and>
    num_instances s' = num_instances s \<and> instance_index s' = instance_index s \<and>
    page_table s' = ((page_table s)(page_id (pages s ! nat fr) := None))(pid \<mapsto> fr)"
    using assms pf
    by (auto simp add: NewPgImp_def p AllocatePage_def ValidatePageId_def WritePage_def
        set_page_def ResetMemory_def Let_def split: if_splits)
  show "pid = next_page_id s" "to_uint32 pid mod num_instances s = instance_index s"
    "next_page_id s' = wrap_int32 (next_page_id s + int (num_instances s))"
    "num_instances s' = num_instances s" "instance_index s' = instance_index s"
    "page_table s' = ((page_table s)(page_id (pages s ! nat fr) := None))(pid \<mapsto> fr)"
    using r by blast+
qed

lemma NewPgImp_null_iff:
  "NewPgImp s = Inr (None, s') \<longleftrightarrow> free_list s = [] \<and> tracked (replacer s) = [] \<and> s' = s"
  by (auto simp add: NewPgImp_def Size_0_iff Let_def AllocatePage_def
      split: prod.splits if_splits sum.splits)

lemma frame_ok_length: "length (pages s') = length (pages s) \<Longrightarrow> frame_ok s' f = frame_ok s f"
  by (simp add: frame_ok_def)

lemma tracked_Unpin_subset:
  "lru_inv r \<Longrightarrow> set (tracked (Unpin f r)) \<subseteq> insert f (set (tracked r))"
  by (cases "f \<in> set (tracked r)") (auto simp add: Unpin_tracked_same Unpin_tracked_new)

lemma frames_okI:
  assumes "frames_ok s" "length (pages s') = length (pages s)"
    and "lru_inv (replacer s')"
    and "set (free_list s') \<subseteq> set (free_list s) \<union> F"
    and "set (tracked (replacer s')) \<subseteq> set (tracked (replacer s)) \<union> F"
    and "\<And>p f. page_table s' p = Some f \<Longrightarrow> (\<exists>q. page_table s q = Some f) \<or> f \<in> F"
    and "\<And>f. f \<in> F \<Longrightarrow> frame_ok s f"
  shows "frames_ok s'"
  unfolding frames_ok_def frame_ok_length [OF assms(2)]
  using assms(1,3-7) unfolding frames_ok_def by blast

lemma NewPgImp_frames_ok:
  assumes ok: "frames_ok s" and r: "NewPgImp s = Inr (r, s')"
  shows "frames_ok s'"
proof (cases "free_list s = [] \<and> tracked (replacer s) = []")
  case True
  then show ?thesis using ok r by (simp add: NewPgImp_none)
next
  case False
  note v = frames_ok_victim [OF ok False]
  have lru: "lru_inv (replacer s)" using ok by (simp add: frames_ok_def)
  from r NewPgImp_result [OF v False] have
    s': "s' = s\<lparr>next_page_id := wrap_int32 (next_page_id s + int (num_instances s)),
            free_list := tl (free_list s),
            replacer := (if free_list s \<noteq> [] then replacer s else snd (Victim (replacer s))),
            disk := (if is_dirty (pages s ! nat (victim_frame s))
                     then (disk s)(page_id (pages s ! nat (victim_frame s)) \<mapsto>
                                     data (pages s ! nat (victim_frame s)))
                     else disk s),
            page_table := ((page_table s)(page_id (pages s ! nat (victim_frame s)) := None))
                            (next_page_id s \<mapsto> victim_frame s),
            pages := (pages s)[nat (victim_frame s) :=
                        \<lparr>data = replicate PAGE_SIZE 0, page_id = next_page_id s,
                         pin_count = 1, is_dirty = False\<rparr>]\<rparr>"
    by (simp split: if_splits)
  show ?thesis
  proof (rule frames_okI [OF ok, where F = "{victim_frame s}"])
    show "length (pages s') = length (pages s)" by (simp add: s')
    show "lru_inv (replacer s')" using lru by (simp add: s' lru_inv_Victim)
    show "set (free_list s') \<subseteq> set (free_list s) \<union> {victim_frame s}"
      by (cases "free_list s") (auto simp add: s')
    show "set (tracked (replacer s')) \<subseteq> set (tracked (replacer s)) \<union> {victim_frame s}"
      by (cases "tracked (replacer s)") (auto simp add: s' Victim_tracked)
    show "(\<exists>q. page_table s q = Some f) \<or> f \<in> {victim_frame s}"
      if "page_table s' p = Some f" for p f
      using that by (auto simp add: s' split: if_splits)
    show "frame_ok s f" if "f \<in> {victim_frame s}" for f using that v by simp
  qed
qed

lemma NewPgImp_faults:
  assumes ok: "frames_ok s" and r: "NewPgImp s = Inl e"
  shows "e = ValidatePageIdAssert \<and> \<not> ValidatePageId s (next_page_id s) \<and>
         \<not> (free_list s = [] \<and> tracked (replacer s) = [])"
proof (cases "free_list s = [] \<and> tracked (replacer s) = []")
  case True
  then show ?thesis using r by (simp add: NewPgImp_none)
next
  case False
  from r NewPgImp_result [OF frames_ok_victim [OF ok False] False] False
  show ?thesis by (simp split: if_splits)
qed

lemma FetchPgImp_frames_ok:
  assumes ok: "frames_ok s" and r: "FetchPgImp s pid = Inr (r, s')"
  shows "frames_ok s' \<and> next_page_id s' = next_page_id s \<and>
         num_instances s' = num_instances s \<and> instance_index s' = instance_index s"
proof (cases "page_table s pid")
  case (Some f)
  have lru: "lru_inv (replacer s)" using ok by (simp add: frames_ok_def)
  have fo: "frame_ok s f" using ok Some by (auto simp add: frames_ok_def)
  from r Some fo have s': "s' = (set_page s f ((pages s ! nat f)\<lparr>pin_count :=
        pin_count (pages s ! nat f) + 1\<rparr>))\<lparr>replacer := Pin f (replacer s)\<rparr>"
    by (auto simp add: FetchPgImp_def Let_def set_page_def)
  have "frames_ok s'"
  proof (rule frames_okI [OF ok, where F = "{}"])
    show "length (pages s') = length (pages s)" by (simp add: s' set_page_def)
    show "lru_inv (replacer s')" using lru by (simp add: s' lru_inv_Pin)
    show "set (free_list s') \<subseteq> set (free_list s) \<union> {}" by (simp add: s' set_page_def)
    show "set (tracked (replacer s')) \<subseteq> set (tracked (replacer s)) \<union> {}"
      using lru by (auto simp add: s' Pin_tracked)
    show "(\<exists>q. page_table s q = Some g) \<or> g \<in> {}" if "page_table s' p = Some g" for p g
      using that by (auto simp add: s' set_page_def)
  qed simp
  then show ?thesis by (simp add: s' set_page_def)
next
  case None
  show ?thesis
  proof (cases "free_list s = [] \<and> tracked (replacer s) = []")
    case True
    then show ?thesis using ok r None by (simp add: FetchPgImp_def Size_0_iff)
  next
    case False
    note v = frames_ok_victim [OF ok False]
    have lru: "lru_inv (replacer s)" using ok by (simp add: frames_ok_def)
    have nz: "\<not> (Size (replacer s) = 0 \<and> free_list s = [])"
      using False by (auto simp: Size_0_iff)
    have f: "length (pages s') = length (pages s)"
      "replacer s' = (if free_list s \<noteq> [] then replacer s else snd (Victim (replacer s)))"
      "free_list s' = tl (free_list s)"
      "page_table s' = ((page_table s)(page_id (pages s ! nat (victim_frame s)) := None))
                            (pid \<mapsto> victim_frame s)"
      "next_page_id s' = next_page_id s" "num_instances s' = num_instances s"
      "instance_index s' = instance_index s"
      using r None v nz
      by (auto simp add: FetchPgImp_def pick_frame_eq [OF False] frame_ok_def WritePage_def
          set_page_def Let_def split: if_splits)
    have "frames_ok s'"
    proof (rule frames_okI [OF ok, where F = "{victim_frame s}"])
      show "length (pages s') = length (pages s)" by (rule f)
      show "lru_inv (replacer s')" using lru by (simp add: f lru_inv_Victim)
      show "set (free_list s') \<subseteq> set (free_list s) \<union> {victim_frame s}"
        by (cases "free_list s") (auto simp add: f)
      show "set (tracked (replacer s')) \<subseteq> set (tracked (replacer s)) \<union> {victim_frame s}"
        by (cases "tracked (replacer s)") (auto simp add: f Victim_tracked)
      show "(\<exists>q. page_table s q = Some g) \<or> g \<in> {victim_frame s}"
        if "page_table s' p = Some g" for p g
        using that by (auto simp add: f split: if_splits)
      show "frame_ok s g" if "g \<in> {victim_frame s}" for g using that v by simp
    qed
    then show ?thesis by (simp add: f)
  qed
qed

lemma FetchPgImp_no_fault: "frames_ok s \<Longrightarrow> \<exists>r s'. FetchPgImp s pid = Inr (r, s')"
proof -
  assume ok: "frames_ok s"
  show ?thesis
  proof (cases "page_table s pid")
    case (Some f)
    then have "frame_ok s f" using ok by (auto simp add: frames_ok_def)
    then show ?thesis using Some by (simp add: FetchPgImp_def Let_def)
  next
    case None
    show ?thesis
    proof (cases "free_list s = [] \<and> tracked (replacer s) = []")
      case True
      then show ?thesis using None by (simp add: FetchPgImp_def Size_0_iff)
    next
      case False
      have nz: "\<not> (Size (replacer s) = 0 \<and> free_list s = [])"
        using False by (auto simp: Size_0_iff)
      show ?thesis
        using None nz frames_ok_victim [OF ok False]
        by (auto simp add: FetchPgImp_def pick_frame_eq [OF False] frame_ok_def Let_def)
    qed
  qed
qed

lemma UnpinPgImp_frames_ok:
  assumes ok: "frames_ok s"
  shows "\<exists>r s'. UnpinPgImp s pid d = Inr (r, s') \<and> frames_ok s' \<and>
           next_page_id s' = next_page_id s \<and> num_instances s' = num_instances s \<and>
           instance_index s' = instance_index s"
proof (cases "page_table s pid")
  case None
  then show ?thesis using ok by (auto simp add: UnpinPgImp_def)
next
  case (Some f)
  have lru: "lru_inv (replacer s)" using ok by (simp add: frames_ok_def)
  have fo: "frame_ok s f" using ok Some by (auto simp add: frames_ok_def)
  obtain s' where s': "UnpinPgImp s pid d = Inr (True, s')"
    "length (pages s') = length (pages s)" "free_list s' = free_list s"
    "page_table s' = page_table s"
    "replacer s' = replacer s \<or> replacer s' = Unpin f (replacer s)"
    "next_page_id s' = next_page_id s" "num_instances s' = num_instances s"
    "instance_index s' = instance_index s"
    using Some fo by (auto simp add: UnpinPgImp_def Let_def set_page_def)
  have "frames_ok s'"
  proof (rule frames_okI [OF ok, where F = "{f}"])
    show "length (pages s') = length (pages s)" by (rule s')
    show "lru_inv (replacer s')" using lru s'(5) by (auto simp add: lru_inv_Unpin)
    show "set (free_list s') \<subseteq> set (free_list s) \<union> {f}" by (auto simp add: s')
    show "set (tracked (replacer s')) \<subseteq> set (tracked (replacer s)) \<union> {f}"
      using s'(5) tracked_Unpin_subset [OF lru, of f] by auto
    show "(\<exists>q. page_table s q = Some g) \<or> g \<in> {f}" if "page_table s' p = Some g" for p g
      using that by (auto simp add: s')
    show "frame_ok s g" if "g \<in> {f}" for g using that fo by simp
  qed
  then show ?thesis using s' by blast
qed

lemma DeletePgImp_frames_ok:
  assumes ok: "frames_ok s"
  shows "\<exists>r s'. DeletePgImp s pid = Inr (r, s') \<and> frames_ok s' \<and>
           next_page_id s' = next_page_id s \<and> num_instances s' = num_instances s \<and>
           instance_index s' = instance_index s"
proof (cases "page_table s pid")
  case None
  then show ?thesis using ok by (auto simp add: DeletePgImp_def)
next
  case (Some f)
  have lru: "lru_inv (replacer s)" using ok by (simp add: frames_ok_def)
  have fo: "frame_ok s f" using ok Some by (auto simp add: frames_ok_def)
  show ?thesis
  proof (cases "pin_count (pages s ! nat f) \<noteq> 0")
    case True
    then show ?thesis using ok Some fo by (auto simp add: DeletePgImp_def Let_def)
  next
    case False
    obtain s' where s': "DeletePgImp s pid = Inr (True, s')"
      "length (pages s') = length (pages s)" "free_list s' = free_list s @ [f]"
      "page_table s' = (page_table s)(pid := None)"
      "replacer s' = Pin f (replacer s)"
      "next_page_id s' = next_page_id s" "num_instances s' = num_instances s"
      "instance_index s' = instance_index s"
      using Some fo False
      by (auto simp add: DeletePgImp_def Let_def set_page_def WritePage_def)
    have "frames_ok s'"
    proof (rule frames_okI [OF ok, where F = "{f}"])
      show "length (pages s') = length (pages s)" by (rule s')
      show "lru_inv (replacer s')" using lru by (simp add: s' lru_inv_Pin)
      show "set (free_list s') \<subseteq> set (free_list s) \<union> {f}" by (auto simp add: s')
      show "set (tracked (replacer s')) \<subseteq> set (tracked (replacer s)) \<union> {f}"
        using lru by (auto simp add: s' Pin_tracked)
      show "(\<exists>q. page_table s q = Some g) \<or> g \<in> {f}" if "page_table s' p = Some g" for p g
        using that by (auto simp add: s' split: if_splits)
      show "frame_ok s g" if "g \<in> {f}" for g using that fo by simp
    qed
    then show ?thesis using s' by blast
  qed
qed

subsection \<open>The page ids handed out along a sequence of operations\<close>

definition alloc_inv ::
  "nat \<Rightarrow> nat \<Rightarrow> BufferPoolManagerInstance \<Rightarrow> page_id_t list \<Rightarrow> bool" where
  "alloc_inv n i s pids \<longleftrightarrow>
     frames_ok s \<and> num_instances s = n \<and> instance_index s = i \<and>
     next_page_id s = int i + int (length pids) * int n \<and>
     pids = map (\<lambda>j. int i + int j * int n) [0..<length pids]"

lemma wrap_int32_id: "0 \<le> y \<Longrightarrow> y < 2 ^ 31 \<Longrightarrow> wrap_int32 y = y"
  by (simp add: wrap_int32_def)

lemma stride_valid:
  assumes "i < n" "int i + int k * int n < 2 ^ 31"
  shows "to_uint32 (int i + int k * int n) mod n = i"
proof -
  have "int i + int k * int n = int (i + k * n)" by simp
  moreover have "int (i + k * n) mod 2 ^ 32 = int (i + k * n)"
    using assms(2) by simp
  ultimately have "to_uint32 (int i + int k * int n) = i + k * n"
    by (simp only: to_uint32_def nat_int)
  then show ?thesis using assms(1) by simp
qed

lemma alloc_inv_new: "alloc_inv n i (BufferPoolManagerInstance_new m n i) []"
  by (simp add: alloc_inv_def frames_ok_new) (simp add: BufferPoolManagerInstance_new_def)

lemma alloc_inv_NewPgImp:
  assumes inv: "alloc_inv n i s pids" and r: "NewPgImp s = Inr (Some (pid, fr), s')"
    and b: "int i + int (Suc (length pids)) * int n < 2 ^ 31"
  shows "alloc_inv n i s' (pids @ [pid])"
proof -
  note a = NewPgImp_allocates [OF r]
  have f: "frames_ok s" "num_instances s = n" "instance_index s = i"
    "next_page_id s = int i + int (length pids) * int n"
    "pids = map (\<lambda>j. int i + int j * int n) [0..<length pids]"
    using inv by (simp_all add: alloc_inv_def)
  have "next_page_id s + int n = int i + int (Suc (length pids)) * int n"
    by (simp add: f(4) algebra_simps)
  then have n': "next_page_id s' = int i + int (Suc (length pids)) * int n"
    using b by (simp only: a(3) f(2) wrap_int32_id) (simp add: wrap_int32_id)
  have "map (\<lambda>j. int i + int j * int n) [0..<Suc (length pids)] = pids @ [pid]"
    using f(5) by (simp add: a(1) f(4))
  then show ?thesis
    using NewPgImp_frames_ok [OF f(1) r] n' by (simp add: alloc_inv_def a(4,5) f(2,3))
qed

lemma bpm_run_length:
  "bpm_run s pids ops = Inr (pids', s') \<Longrightarrow> length pids \<le> length pids'"
proof (induction ops arbitrary: s pids)
  case Nil
  then show ?case by simp
next
  case (Cons op ops)
  show ?case
  proof (cases op)
    case BpmNewPage
    show ?thesis
    proof (cases "NewPgImp s")
      case (Inl e)
      then show ?thesis using Cons(2) BpmNewPage by simp
    next
      case (Inr x)
      obtain r s1 where x: "x = (r, s1)" by (cases x)
      show ?thesis
      proof (cases r)
        case None
        then show ?thesis using Cons(1) [of s1 pids] Cons(2) BpmNewPage Inr x by simp
      next
        case (Some y)
        obtain pid fr where y: "y = (pid, fr)" by (cases y)
        have "length (pids @ [pid]) \<le> length pids'"
          using Cons(1) [of s1 "pids @ [pid]"] Cons(2) BpmNewPage Inr x Some y by simp
        then show ?thesis by simp
      qed
    qed
  next
    case (BpmFetchPage pid)
    then show ?thesis using Cons by (auto split: sum.splits)
  next
    case (BpmUnpinPage pid d)
    then show ?thesis using Cons by (auto split: sum.splits)
  next
    case (BpmDeletePage pid)
    then show ?thesis using Cons by (auto split: sum.splits)
  qed
qed

lemma bpm_run_alloc_inv:
  assumes "0 < n" "i < n"
  shows "alloc_inv n i s pids \<Longrightarrow> bpm_run s pids ops = Inr (pids', s') \<Longrightarrow>
    int i + int (length pids') * int n < 2 ^ 31 \<Longrightarrow> alloc_inv n i s' pids'"
proof (induction ops arbitrary: s pids)
  case Nil
  then show ?case by simp
next
  case (Cons op ops)
  have ok: "frames_ok s" using Cons(2) by (simp add: alloc_inv_def)
  show ?case
  proof (cases op)
    case BpmNewPage
    show ?thesis
    proof (cases "NewPgImp s")
      case (Inl e)
      then show ?thesis using Cons(3) BpmNewPage by simp
    next
      case (Inr x)
      obtain r s1 where x: "x = (r, s1)" by (cases x)
      show ?thesis
      proof (cases r)
        case None
        then have "s1 = s" using Inr x by (simp add: NewPgImp_null_iff)
        then show ?thesis
          using Cons(1) [of s pids] Cons(2,3,4) BpmNewPage Inr x None by simp
      next
        case (Some y)
        obtain pid fr where y: "y = (pid, fr)" by (cases y)
        have run: "bpm_run s1 (pids @ [pid]) ops = Inr (pids', s')"
          using Cons(3) BpmNewPage Inr x Some y by simp
        from bpm_run_length [OF run] have "Suc (length pids) \<le> length pids'" by simp
        then have "int i + int (Suc (length pids)) * int n
            \<le> int i + int (length pids') * int n"
          by (intro add_left_mono mult_right_mono) simp_all
        then have "int i + int (Suc (length pids)) * int n < 2 ^ 31" using Cons(4) by simp
        from alloc_inv_NewPgImp [OF Cons(2) Inr [unfolded x Some y] this]
        have "alloc_inv n i s1 (pids @ [pid])" .
        from Cons(1) [OF this run Cons(4)] show ?thesis .
      qed
    qed
  next
    case (BpmFetchPage pid)
    show ?thesis
    proof (cases "FetchPgImp s pid")
      case (Inl e)
      then show ?thesis using Cons(3) BpmFetchPage by simp
    next
      case (Inr x)
      obtain r s1 where x: "x = (r, s1)" by (cases x)
      from FetchPgImp_frames_ok [OF ok Inr [unfolded x]] Cons(2)
      have "alloc_inv n i s1 pids" by (simp add: alloc_inv_def)
      from Cons(1) [OF this] Cons(3,4) BpmFetchPage Inr x show ?thesis by simp
    qed
  next
    case (BpmUnpinPage pid d)
    from UnpinPgImp_frames_ok [OF ok, of pid d] obtain r s1 where
      u: "UnpinPgImp s pid d = Inr (r, s1)" "frames_ok s1" "next_page_id s1 = next_page_id s"
        "num_instances s1 = num_instances s" "instance_index s1 = instance_index s" by blast
    then have "alloc_inv n i s1 pids" using Cons(2) by (simp add: alloc_inv_def)
    from Cons(1) [OF this] Cons(3,4) BpmUnpinPage u(1) show ?thesis by simp
  next
    case (BpmDeletePage pid)
    from DeletePgImp_frames_ok [OF ok, of pid] obtain r s1 where
      u: "DeletePgImp s pid = Inr (r, s1)" "frames_ok s1" "next_page_id s1 = next_page_id s"
        "num_instances s1 = num_instances s" "instance_index s1 = instance_index s" by blast
    then have "alloc_inv n i s1 pids" using Cons(2) by (simp add: alloc_inv_def)
    from Cons(1) [OF this] Cons(3,4) BpmDeletePage u(1) show ?thesis by simp
  qed
qed

lemma bpm_run_completes:
  assumes "0 < n" "i < n"
  shows "alloc_inv n i s pids \<Longrightarrow>
    int i + int (length pids + length (filter (\<lambda>op. op = BpmNewPage) ops)) * int n < 2 ^ 31 \<Longrightarrow>
    \<exists>pids' s'. bpm_run s pids ops = Inr (pids', s') \<and>
       length pids' \<le> length pids + length (filter (\<lambda>op. op = BpmNewPage) ops)"
proof (induction ops arbitrary: s pids)
  case Nil
  then show ?case by simp
next
  case (Cons op ops)
  let ?c = "length (filter (\<lambda>op. op = BpmNewPage) ops)"
  have ok: "frames_ok s" and f: "num_instances s = n" "instance_index s = i"
    "next_page_id s = int i + int (length pids) * int n"
    using Cons(2) by (simp_all add: alloc_inv_def)
  show ?case
  proof (cases op)
    case BpmNewPage
    have b: "int i + int (Suc (length pids + ?c)) * int n < 2 ^ 31"
      using Cons(3) BpmNewPage by simp
    have "int i + int (length pids) * int n \<le> int i + int (Suc (length pids + ?c)) * int n"
      by (intro add_left_mono mult_right_mono) simp_all
    then have "int i + int (length pids) * int n < 2 ^ 31" using b by simp
    then have val: "ValidatePageId s (next_page_id s)"
      using stride_valid [OF assms(2), of "length pids"] by (simp add: ValidatePageId_def f)
    show ?thesis
    proof (cases "NewPgImp s")
      case (Inl e)
      then show ?thesis using NewPgImp_faults [OF ok Inl] val by simp
    next
      case (Inr x)
      obtain r s1 where x: "x = (r, s1)" by (cases x)
      show ?thesis
      proof (cases r)
        case None
        then have s1: "s1 = s" using Inr x by (simp add: NewPgImp_null_iff)
        have "int i + int (length pids + ?c) * int n
            \<le> int i + int (Suc (length pids + ?c)) * int n"
          by (intro add_left_mono mult_right_mono) simp_all
        then have "int i + int (length pids + ?c) * int n < 2 ^ 31" using b by simp
        from Cons(1) [OF Cons(2) this] show ?thesis
          using BpmNewPage Inr x None s1 by auto
      next
        case (Some y)
        obtain pid fr where y: "y = (pid, fr)" by (cases y)
        have "int i + int (Suc (length pids)) * int n
            \<le> int i + int (Suc (length pids + ?c)) * int n"
          by (intro add_left_mono mult_right_mono) simp_all
        then have "int i + int (Suc (length pids)) * int n < 2 ^ 31" using b by simp
        from alloc_inv_NewPgImp [OF Cons(2) Inr [unfolded x Some y] this]
        have a: "alloc_inv n i s1 (pids @ [pid])" .
        have "int i + int (length (pids @ [pid]) + ?c) * int n < 2 ^ 31" using b by simp
        from Cons(1) [OF a this] show ?thesis
          using BpmNewPage Inr x Some y by auto
      qed
    qed
  next
    case (BpmFetchPage pid)
    from FetchPgImp_no_fault [OF ok, of pid] obtain r s1 where
      u: "FetchPgImp s pid = Inr (r, s1)" by blast
    from FetchPgImp_frames_ok [OF ok u] Cons(2)
    have "alloc_inv n i s1 pids" by (simp add: alloc_inv_def)
    from Cons(1) [OF this] Cons(3) BpmFetchPage u show ?thesis by simp
  next
    case (BpmUnpinPage pid d)
    from UnpinPgImp_frames_ok [OF ok, of pid d] obtain r s1 where
      u: "UnpinPgImp s pid d = Inr (r, s1)" "frames_ok s1" "next_page_id s1 = next_page_id s"
        "num_instances s1 = num_instances s" "instance_index s1 = instance_index s" by blast
    then have "alloc_inv n i s1 pids" using Cons(2) by (simp add: alloc_inv_def)
    from Cons(1) [OF this] Cons(3) BpmUnpinPage u(1) show ?thesis by simp
  next
    case (BpmDeletePage pid)
    from DeletePgImp_frames_ok [OF ok, of pid] obtain r s1 where
      u: "DeletePgImp s pid = Inr (r, s1)" "frames_ok s1" "next_page_id s1 = next_page_id s"
        "num_instances s1 = num_instances s" "instance_index s1 = instance_index s" by blast
    then have "alloc_inv n i s1 pids" using Cons(2) by (simp add: alloc_inv_def)
    from Cons(1) [OF this] Cons(3) BpmDeletePage u(1) show ?thesis by simp
  qed
qed

lemma stride_distinct:
  assumes "0 < n"
  shows "distinct (map (\<lambda>j. int i + int j * int n) [0..<k])"
  using assms by (auto simp add: distinct_map inj_on_def)

lemma mapped_below_NewPgImp:
  assumes m: "mapped_below s" and r: "NewPgImp s = Inr (Some (pid, fr), s')"
    and n: "0 < num_instances s" and b: "next_page_id s + int (num_instances s) < 2 ^ 31"
    and z: "0 \<le> next_page_id s"
  shows "page_table s pid = None \<and> mapped_below s'"
proof -
  note a = NewPgImp_allocates [OF r]
  have n': "next_page_id s' = next_page_id s + int (num_instances s)"
    using b z by (simp add: a(3) wrap_int32_id)
  have "page_table s pid = None"
  proof (cases "page_table s pid")
    case (Some f)
    then have "pid < next_page_id s" using m by (auto simp add: mapped_below_def)
    then show ?thesis using a(1) by simp
  qed simp
  moreover have "mapped_below s'"
    using m n unfolding mapped_below_def a(6) n' a(1)
    by (auto split: if_splits)
  ultimately show ?thesis by simp
qed


text \<open>
  Claim C6. \<open>NewPgImp\<close> returns null exactly when the free list and the replacer are both
  empty, and then leaves the pool unchanged. A call that hands out a page hands out the value
  of \<open>next_page_id\<close>; that value is congruent to the instance index modulo the number of
  instances, because \<open>AllocatePage\<close> asserts it, and \<open>next_page_id\<close> advances by the number
  of instances (in 32-bit arithmetic). In a pool whose frame ids are in range, with a frame
  available, the call takes the front of the free list if there is one and else the
  replacer's victim; if the counter is congruent it writes the victim frame to disk if it was
  dirty, erases the page-table entry of the victim's page id, zeroes the frame, sets its pin
  count to 1 and its dirty flag to false, maps the new page id to the frame and leaves the
  frame ids in range; if the counter is not congruent the assertion of \<open>AllocatePage\<close>
  fails. The page id is fresh: while every mapped page id is below the counter and the
  counter does not leave the non-negative 32-bit range, the page id handed out is not in the
  page table, and every mapped page id is below the counter afterwards.

  Along any sequence of \<open>NewPage\<close>, \<open>FetchPage\<close>, \<open>UnpinPage\<close> and \<open>DeletePage\<close> calls on
  a pool made by the constructor with \<open>0 < num_instances\<close> and
  \<open>instance_index < num_instances\<close> (the constructor asserts both), as long as the counter
  stays below \<open>2 ^ 31\<close>: the page ids handed out are
  \<open>instance_index, instance_index + num_instances, instance_index + 2 * num_instances, \<dots>\<close>
  in this order, so they are pairwise distinct and each is congruent to the instance index;
  the frame ids stay in range; and no call aborts when the number of \<open>NewPage\<close> calls keeps
  the counter below \<open>2 ^ 31\<close>.
\<close>

theorem NewPgImp_contract:
  "(NewPgImp sa = Inr (None, sa) \<longleftrightarrow> free_list sa = [] \<and> tracked (replacer sa) = []) \<and>
   (\<forall>s'. NewPgImp sa = Inr (None, s') \<longrightarrow> s' = sa) \<and>
   (\<forall>pid fr s'. NewPgImp sb = Inr (Some (pid, fr), s') \<longrightarrow>
       pid = next_page_id sb \<and>
       to_uint32 pid mod num_instances sb = instance_index sb \<and>
       next_page_id s' = wrap_int32 (next_page_id sb + int (num_instances sb)) \<and>
       num_instances s' = num_instances sb \<and> instance_index s' = instance_index sb) \<and>
   (frames_ok sc \<and> \<not> (free_list sc = [] \<and> tracked (replacer sc) = []) \<longrightarrow>
       victim_frame sc =
         (if free_list sc \<noteq> [] then hd (free_list sc) else hd (tracked (replacer sc))) \<and>
       (if to_uint32 (next_page_id sc) mod num_instances sc = instance_index sc
        then \<exists>s'. NewPgImp sc = Inr (Some (next_page_id sc, victim_frame sc), s') \<and>
               frames_ok s' \<and>
               free_list s' = tl (free_list sc) \<and>
               tracked (replacer s') =
                 (if free_list sc \<noteq> [] then tracked (replacer sc)
                  else tl (tracked (replacer sc))) \<and>
               disk s' = (if is_dirty (pages sc ! nat (victim_frame sc))
                          then (disk sc)(page_id (pages sc ! nat (victim_frame sc)) \<mapsto>
                                          data (pages sc ! nat (victim_frame sc)))
                          else disk sc) \<and>
               page_table s' = ((page_table sc)(page_id (pages sc ! nat (victim_frame sc)) := None))
                                 (next_page_id sc \<mapsto> victim_frame sc) \<and>
               next_page_id s' = wrap_int32 (next_page_id sc + int (num_instances sc)) \<and>
               pages s' = (pages sc)[nat (victim_frame sc) :=
                            \<lparr>data = replicate PAGE_SIZE 0, page_id = next_page_id sc,
                             pin_count = 1, is_dirty = False\<rparr>]
        else NewPgImp sc = Inl ValidatePageIdAssert)) \<and>
   (mapped_below sd \<and> 0 < num_instances sd \<and> 0 \<le> next_page_id sd \<and>
    next_page_id sd + int (num_instances sd) < 2 ^ 31 \<and>
    NewPgImp sd = Inr (Some (pd, fd), sd') \<longrightarrow>
       page_table sd pd = None \<and> mapped_below sd' \<and> pd < next_page_id sd') \<and>
   (0 < n \<and> i < n \<and> bpm_run (BufferPoolManagerInstance_new m n i) [] ops = Inr (pids, t) \<and>
    int i + int (length pids) * int n < 2 ^ 31 \<longrightarrow>
       pids = map (\<lambda>j. int i + int j * int n) [0..<length pids] \<and> distinct pids \<and>
       (\<forall>p \<in> set pids. to_uint32 p mod n = i) \<and>
       next_page_id t = int i + int (length pids) * int n \<and>
       num_instances t = n \<and> instance_index t = i \<and> frames_ok t) \<and>
   (0 < n' \<and> i' < n' \<and>
    int i' + int (length (filter (\<lambda>op. op = BpmNewPage) ops')) * int n' < 2 ^ 31 \<longrightarrow>
       (\<exists>pids' t'. bpm_run (BufferPoolManagerInstance_new m' n' i') [] ops' = Inr (pids', t') \<and>
          length pids' \<le> length (filter (\<lambda>op. op = BpmNewPage) ops')))"
proof (intro conjI)
  show "NewPgImp sa = Inr (None, sa) \<longleftrightarrow> free_list sa = [] \<and> tracked (replacer sa) = []"
    by (simp add: NewPgImp_null_iff)
  show "\<forall>s'. NewPgImp sa = Inr (None, s') \<longrightarrow> s' = sa"
    by (simp add: NewPgImp_null_iff)
  show "\<forall>pid fr s'. NewPgImp sb = Inr (Some (pid, fr), s') \<longrightarrow>
       pid = next_page_id sb \<and>
       to_uint32 pid mod num_instances sb = instance_index sb \<and>
       next_page_id s' = wrap_int32 (next_page_id sb + int (num_instances sb)) \<and>
       num_instances s' = num_instances sb \<and> instance_index s' = instance_index sb"
    using NewPgImp_allocates [of sb] by blast
  show "frames_ok sc \<and> \<not> (free_list sc = [] \<and> tracked (replacer sc) = []) \<longrightarrow>
       victim_frame sc =
         (if free_list sc \<noteq> [] then hd (free_list sc) else hd (tracked (replacer sc))) \<and>
       (if to_uint32 (next_page_id sc) mod num_instances sc = instance_index sc
        then \<exists>s'. NewPgImp sc = Inr (Some (next_page_id sc, victim_frame sc), s') \<and>
               frames_ok s' \<and>
               free_list s' = tl (free_list sc) \<and>
               tracked (replacer s') =
                 (if free_list sc \<noteq> [] then tracked (replacer sc)
                  else tl (tracked (replacer sc))) \<and>
               disk s' = (if is_dirty (pages sc ! nat (victim_frame sc))
                          then (disk sc)(page_id (pages sc ! nat (victim_frame sc)) \<mapsto>
                                          data (pages sc ! nat (victim_frame sc)))
                          else disk sc) \<and>
               page_table s' = ((page_table sc)(page_id (pages sc ! nat (victim_frame sc)) := None))
                                 (next_page_id sc \<mapsto> victim_frame sc) \<and>
               next_page_id s' = wrap_int32 (next_page_id sc + int (num_instances sc)) \<and>
               pages s' = (pages sc)[nat (victim_frame sc) :=
                            \<lparr>data = replicate PAGE_SIZE 0, page_id = next_page_id sc,
                             pin_count = 1, is_dirty = False\<rparr>]
        else NewPgImp sc = Inl ValidatePageIdAssert)"
  proof (intro impI, elim conjE)
    assume ok: "frames_ok sc" and av: "\<not> (free_list sc = [] \<and> tracked (replacer sc) = [])"
    note v = frames_ok_victim [OF ok av]
    note res = NewPgImp_result [OF v av]
    have vf: "victim_frame sc =
        (if free_list sc \<noteq> [] then hd (free_list sc) else hd (tracked (replacer sc)))"
      by (simp add: victim_frame_def)
    show "victim_frame sc =
         (if free_list sc \<noteq> [] then hd (free_list sc) else hd (tracked (replacer sc))) \<and>
       (if to_uint32 (next_page_id sc) mod num_instances sc = instance_index sc
        then \<exists>s'. NewPgImp sc = Inr (Some (next_page_id sc, victim_frame sc), s') \<and>
               frames_ok s' \<and>
               free_list s' = tl (free_list sc) \<and>
               tracked (replacer s') =
                 (if free_list sc \<noteq> [] then tracked (replacer sc)
                  else tl (tracked (replacer sc))) \<and>
               disk s' = (if is_dirty (pages sc ! nat (victim_frame sc))
                          then (disk sc)(page_id (pages sc ! nat (victim_frame sc)) \<mapsto>
                                          data (pages sc ! nat (victim_frame sc)))
                          else disk sc) \<and>
               page_table s' = ((page_table sc)(page_id (pages sc ! nat (victim_frame sc)) := None))
                                 (next_page_id sc \<mapsto> victim_frame sc) \<and>
               next_page_id s' = wrap_int32 (next_page_id sc + int (num_instances sc)) \<and>
               pages s' = (pages sc)[nat (victim_frame sc) :=
                            \<lparr>data = replicate PAGE_SIZE 0, page_id = next_page_id sc,
                             pin_count = 1, is_dirty = False\<rparr>]
        else NewPgImp sc = Inl ValidatePageIdAssert)"
    proof (cases "to_uint32 (next_page_id sc) mod num_instances sc = instance_index sc")
      case True
      then have val: "ValidatePageId sc (next_page_id sc)" by (simp add: ValidatePageId_def)
      from res val obtain s' where
        r: "NewPgImp sc = Inr (Some (next_page_id sc, victim_frame sc), s')" by simp
      have ok': "frames_ok s'" by (rule NewPgImp_frames_ok [OF ok r])
      have eff: "free_list s' = tl (free_list sc)"
        "tracked (replacer s') =
           (if free_list sc \<noteq> [] then tracked (replacer sc) else tl (tracked (replacer sc)))"
        "disk s' = (if is_dirty (pages sc ! nat (victim_frame sc))
                          then (disk sc)(page_id (pages sc ! nat (victim_frame sc)) \<mapsto>
                                          data (pages sc ! nat (victim_frame sc)))
                          else disk sc)"
        "page_table s' = ((page_table sc)(page_id (pages sc ! nat (victim_frame sc)) := None))
                                 (next_page_id sc \<mapsto> victim_frame sc)"
        "next_page_id s' = wrap_int32 (next_page_id sc + int (num_instances sc))"
        "pages s' = (pages sc)[nat (victim_frame sc) :=
                            \<lparr>data = replicate PAGE_SIZE 0, page_id = next_page_id sc,
                             pin_count = 1, is_dirty = False\<rparr>]"
        using r val unfolding res by (auto simp add: Victim_tracked)
      show ?thesis
        unfolding if_P [OF True]
        by (intro conjI exI [of _ s'] vf r ok' eff)
    next
      case False
      then have "\<not> ValidatePageId sc (next_page_id sc)" by (simp add: ValidatePageId_def)
      then have "NewPgImp sc = Inl ValidatePageIdAssert" by (simp add: res)
      then show ?thesis unfolding if_not_P [OF False] using vf by (intro conjI)
    qed
  qed
  show "mapped_below sd \<and> 0 < num_instances sd \<and> 0 \<le> next_page_id sd \<and>
    next_page_id sd + int (num_instances sd) < 2 ^ 31 \<and>
    NewPgImp sd = Inr (Some (pd, fd), sd') \<longrightarrow>
       page_table sd pd = None \<and> mapped_below sd' \<and> pd < next_page_id sd'"
  proof (intro impI, elim conjE)
    assume h: "mapped_below sd" "0 < num_instances sd" "0 \<le> next_page_id sd"
      "next_page_id sd + int (num_instances sd) < 2 ^ 31"
      "NewPgImp sd = Inr (Some (pd, fd), sd')"
    note a = NewPgImp_allocates [OF h(5)]
    have "next_page_id sd' = next_page_id sd + int (num_instances sd)"
      using h(3,4) by (simp add: a(3) wrap_int32_id)
    then have "pd < next_page_id sd'" using h(2) by (simp add: a(1))
    then show "page_table sd pd = None \<and> mapped_below sd' \<and> pd < next_page_id sd'"
      using mapped_below_NewPgImp [OF h(1) h(5) h(2) h(4) h(3)] by simp
  qed
  show "0 < n \<and> i < n \<and> bpm_run (BufferPoolManagerInstance_new m n i) [] ops = Inr (pids, t) \<and>
    int i + int (length pids) * int n < 2 ^ 31 \<longrightarrow>
       pids = map (\<lambda>j. int i + int j * int n) [0..<length pids] \<and> distinct pids \<and>
       (\<forall>p \<in> set pids. to_uint32 p mod n = i) \<and>
       next_page_id t = int i + int (length pids) * int n \<and>
       num_instances t = n \<and> instance_index t = i \<and> frames_ok t"
  proof (intro impI, elim conjE)
    assume h: "0 < n" "i < n"
      "bpm_run (BufferPoolManagerInstance_new m n i) [] ops = Inr (pids, t)"
      "int i + int (length pids) * int n < 2 ^ 31"
    from bpm_run_alloc_inv [OF h(1) h(2) alloc_inv_new h(3) h(4)]
    have inv: "alloc_inv n i t pids" .
    then have p: "pids = map (\<lambda>j. int i + int j * int n) [0..<length pids]"
      by (simp add: alloc_inv_def)
    have d: "distinct pids" by (subst p) (rule stride_distinct [OF h(1)])
    have c: "to_uint32 p mod n = i" if "p \<in> set pids" for p
    proof -
      from that obtain j where j: "j < length pids" "p = int i + int j * int n"
        by (subst (asm) p) auto
      have "int i + int j * int n \<le> int i + int (length pids) * int n"
        using j(1) by (intro add_left_mono mult_right_mono) simp_all
      then have "int i + int j * int n < 2 ^ 31" using h(4) by simp
      from stride_valid [OF h(2) this] show ?thesis by (simp add: j(2))
    qed
    show "pids = map (\<lambda>j. int i + int j * int n) [0..<length pids] \<and> distinct pids \<and>
       (\<forall>p \<in> set pids. to_uint32 p mod n = i) \<and>
       next_page_id t = int i + int (length pids) * int n \<and>
       num_instances t = n \<and> instance_index t = i \<and> frames_ok t"
      using p d c inv by (simp add: alloc_inv_def)
  qed
  show "0 < n' \<and> i' < n' \<and>
    int i' + int (length (filter (\<lambda>op. op = BpmNewPage) ops')) * int n' < 2 ^ 31 \<longrightarrow>
       (\<exists>pids' t'. bpm_run (BufferPoolManagerInstance_new m' n' i') [] ops' = Inr (pids', t') \<and>
          length pids' \<le> length (filter (\<lambda>op. op = BpmNewPage) ops'))"
    using bpm_run_completes [OF _ _ alloc_inv_new, of n' i' ops' m'] by simp
qed


text \<open>
  A pool of two frames of instance 2 of 3: the first \<open>NewPage\<close> hands out page id 2 in
  frame 0; with the counter set to 3, which is not congruent to 2, the assertion of
  \<open>AllocatePage\<close> fails; a pool of no frames returns null. The run \<open>NewPage\<close>,
  \<open>UnpinPage 2 dirty\<close>, \<open>NewPage\<close>, \<open>NewPage\<close>, \<open>NewPage\<close> hands out 2, 5 and 8 (the third
  evicts page 2 from frame 0, the fourth finds every frame pinned).
\<close>

lemma bpm_three_run:
  "case bpm_run (BufferPoolManagerInstance_new 2 3 2) []
      [BpmNewPage, BpmUnpinPage 2 True, BpmNewPage, BpmNewPage, BpmNewPage] of
     Inr (pids, t) \<Rightarrow> pids = [2, 5, 8] \<and> page_table t = [5 \<mapsto> 1, 8 \<mapsto> 0]
   | Inl e \<Rightarrow> False"
  by (simp add: NewPgImp_def UnpinPgImp_def BufferPoolManagerInstance_new_def pick_frame_def
      frame_ok_def AllocatePage_def ValidatePageId_def to_uint32_def wrap_int32_def set_page_def
      ResetMemory_def Page_new_def Size_def LRUReplacer_new_def Unpin_def Victim_def Let_def
      WritePage_def upt_rec)

theorem NewPgImp_contract_witness:
  "frames_ok (BufferPoolManagerInstance_new 2 3 2) \<and>
   (\<exists>s'. NewPgImp (BufferPoolManagerInstance_new 2 3 2) = Inr (Some (2, 0), s') \<and>
      frames_ok s' \<and> free_list s' = [1] \<and> tracked (replacer s') = [] \<and> disk s' = Map.empty \<and>
      page_table s' = [2 \<mapsto> 0] \<and> next_page_id s' = 5 \<and>
      num_instances s' = 3 \<and> instance_index s' = 2 \<and> mapped_below s' \<and>
      pages s' = [\<lparr>data = replicate PAGE_SIZE 0, page_id = 2, pin_count = 1, is_dirty = False\<rparr>,
                  Page_new]) \<and>
   to_uint32 2 mod 3 = (2 :: nat) \<and>
   NewPgImp ((BufferPoolManagerInstance_new 2 3 2)\<lparr>next_page_id := 3\<rparr>) = Inl ValidatePageIdAssert \<and>
   NewPgImp (BufferPoolManagerInstance_new 0 3 2) = Inr (None, BufferPoolManagerInstance_new 0 3 2) \<and>
   (\<exists>t. bpm_run (BufferPoolManagerInstance_new 2 3 2) []
           [BpmNewPage, BpmUnpinPage 2 True, BpmNewPage, BpmNewPage, BpmNewPage] = Inr ([2, 5, 8], t) \<and>
        distinct [2, 5, 8 :: int] \<and> next_page_id t = 11 \<and> num_instances t = 3 \<and>
        instance_index t = 2 \<and> frames_ok t \<and> page_table t = [5 \<mapsto> 1, 8 \<mapsto> 0])"
proof -
  let ?s = "BufferPoolManagerInstance_new 2 3 2"
  let ?b = "?s\<lparr>next_page_id := 3\<rparr>"
  let ?z = "BufferPoolManagerInstance_new 0 3 2"
  let ?ops = "[BpmNewPage, BpmUnpinPage 2 True, BpmNewPage, BpmNewPage, BpmNewPage]"
  obtain pids t where run: "bpm_run ?s [] ?ops = Inr (pids, t)"
    and pt: "pids = [2, 5, 8]" "page_table t = [5 \<mapsto> 1, 8 \<mapsto> 0]"
    using bpm_three_run by (auto split: sum.splits)
  have ok: "frames_ok ?s" by (rule frames_ok_new)
  have okb: "frames_ok ?b" using ok by (simp add: frames_ok_def frame_ok_def)
  have ev: "next_page_id ?s = 2" "victim_frame ?s = 0" "tl (free_list ?s) = [1]"
    "tracked (replacer ?s) = []" "is_dirty (pages ?s ! nat 0) = False" "disk ?s = Map.empty"
    "page_id (pages ?s ! nat 0) = - 1" "page_table ?s = Map.empty" "num_instances ?s = 3"
    "instance_index ?s = 2" "pages ?s = [Page_new, Page_new]" "free_list ?s \<noteq> []"
    "to_uint32 2 mod 3 = (2 :: nat)" "free_list ?z = []" "tracked (replacer ?z) = []"
    by (simp_all add: BufferPoolManagerInstance_new_def victim_frame_def tracked_def
        LRUReplacer_new_def upt_rec Page_new_def INVALID_PAGE_ID_def numeral_2_eq_2
        to_uint32_def)
  have evb: "next_page_id ?b = 3" "num_instances ?b = 3" "instance_index ?b = 2"
    "free_list ?b \<noteq> []" "to_uint32 3 mod 3 \<noteq> (2 :: nat)"
    by (simp_all add: BufferPoolManagerInstance_new_def upt_rec to_uint32_def)
  have mb: "mapped_below ?s" by (rule mapped_below_new)
  have avail: "\<not> (free_list ?s = [] \<and> tracked (replacer ?s) = [])"
    using ev(12) by simp
  have cong: "to_uint32 (next_page_id ?s) mod num_instances ?s = instance_index ?s"
    by (simp add: ev)
  note c4 = NewPgImp_contract [where sc = "?s", THEN conjunct2, THEN conjunct2, THEN conjunct2, THEN conjunct1,
      rule_format, OF conjI [OF ok avail], THEN conjunct2, unfolded if_P [OF cong]]
  from c4 obtain s' where
    g: "NewPgImp ?s = Inr (Some (next_page_id ?s, victim_frame ?s), s')" "frames_ok s'"
      "free_list s' = tl (free_list ?s)"
      "tracked (replacer s') =
         (if free_list ?s \<noteq> [] then tracked (replacer ?s) else tl (tracked (replacer ?s)))"
      "disk s' = (if is_dirty (pages ?s ! nat (victim_frame ?s))
                          then (disk ?s)(page_id (pages ?s ! nat (victim_frame ?s)) \<mapsto>
                                          data (pages ?s ! nat (victim_frame ?s)))
                          else disk ?s)"
      "page_table s' = ((page_table ?s)(page_id (pages ?s ! nat (victim_frame ?s)) := None))
                                 (next_page_id ?s \<mapsto> victim_frame ?s)"
      "next_page_id s' = wrap_int32 (next_page_id ?s + int (num_instances ?s))"
      "pages s' = (pages ?s)[nat (victim_frame ?s) :=
                            \<lparr>data = replicate PAGE_SIZE 0, page_id = next_page_id ?s,
                             pin_count = 1, is_dirty = False\<rparr>]"
    by blast
  have h: "NewPgImp ?s = Inr (Some (2, 0), s')" "frames_ok s'" "free_list s' = [1]"
      "tracked (replacer s') = []" "disk s' = Map.empty" "page_table s' = [2 \<mapsto> 0]"
      "next_page_id s' = 5"
      "pages s' = [\<lparr>data = replicate PAGE_SIZE 0, page_id = 2, pin_count = 1, is_dirty = False\<rparr>,
                  Page_new]"
  proof -
    show "NewPgImp ?s = Inr (Some (2, 0), s')" using g(1) by (simp only: ev(1,2))
    show "frames_ok s'" by (rule g(2))
    show "free_list s' = [1]" using g(3) by (simp only: ev(3))
    show "tracked (replacer s') = []" using g(4) ev(12) by (simp add: ev(4))
    show "disk s' = Map.empty" using g(5) by (simp only: ev(2,5,6) if_False)
    show "page_table s' = [2 \<mapsto> 0]" using g(6) by (simp add: ev(1,2,7,8))
    show "next_page_id s' = 5" using g(7) by (simp add: ev(1,9) wrap_int32_def)
    show "pages s' = [\<lparr>data = replicate PAGE_SIZE 0, page_id = 2, pin_count = 1, is_dirty = False\<rparr>,
                  Page_new]"
      using g(8) by (simp only: ev(1,2,11) nat_0 list_update_code)
  qed
  have h2: "num_instances s' = 3" "instance_index s' = 2"
    using NewPgImp_contract [where sb = "?s", THEN conjunct2, THEN conjunct2, THEN conjunct1,
        rule_format, OF h(1)]
    by (simp_all add: ev(9,10))
  have h3: "mapped_below s'"
    using NewPgImp_contract [where sd = "?s" and pd = 2 and fd = 0 and sd' = s',
        THEN conjunct2, THEN conjunct2, THEN conjunct2, THEN conjunct2, THEN conjunct1]
      mb h(1)
    by (simp add: ev(1,9))
  have a: "\<exists>s'. NewPgImp ?s = Inr (Some (2, 0), s') \<and>
      frames_ok s' \<and> free_list s' = [1] \<and> tracked (replacer s') = [] \<and> disk s' = Map.empty \<and>
      page_table s' = [2 \<mapsto> 0] \<and> next_page_id s' = 5 \<and>
      num_instances s' = 3 \<and> instance_index s' = 2 \<and> mapped_below s' \<and>
      pages s' = [\<lparr>data = replicate PAGE_SIZE 0, page_id = 2, pin_count = 1, is_dirty = False\<rparr>,
                  Page_new]"
    by (intro exI [of _ s'] conjI h h2 h3)
  have b: "NewPgImp ?b = Inl ValidatePageIdAssert"
    using NewPgImp_contract [where sc = "?b", THEN conjunct2, THEN conjunct2, THEN conjunct2,
        THEN conjunct1] okb evb
    by simp
  have c: "NewPgImp ?z = Inr (None, ?z)"
    using NewPgImp_contract [where sa = "?z", THEN conjunct1] ev(14,15) by simp
  have d: "next_page_id t = 11 \<and> num_instances t = 3 \<and> instance_index t = 2 \<and> frames_ok t"
    using NewPgImp_contract [where n = 3 and i = 2 and m = 2 and ops = "?ops"
        and pids = pids and t = t, THEN conjunct2, THEN conjunct2, THEN conjunct2, THEN conjunct2,
        THEN conjunct2, THEN conjunct1] run pt(1)
    by simp
  have e: "\<exists>t. bpm_run ?s [] ?ops = Inr ([2, 5, 8], t) \<and>
        distinct [2, 5, 8 :: int] \<and> next_page_id t = 11 \<and> num_instances t = 3 \<and>
        instance_index t = 2 \<and> frames_ok t \<and> page_table t = [5 \<mapsto> 1, 8 \<mapsto> 0]"
    using d run pt by (intro exI [of _ t]) simp
  show ?thesis
    by (intro conjI ok a ev(13) b c e)
qed

lemma UnpinPgImp_unmapped: "page_table s pid = None \<Longrightarrow> UnpinPgImp s pid d = Inr (False, s)"
  by (simp add: UnpinPgImp_def)

lemma UnpinPgImp_mapped:
  assumes "bpm_inv s" "page_table s pid = Some f"
  shows "UnpinPgImp s pid d =
     Inr (True,
          s\<lparr>pages := (pages s)[nat f := (pages s ! nat f)
                        \<lparr>is_dirty := d \<or> is_dirty (pages s ! nat f),
                         pin_count := pin_count (pages s ! nat f) - 1\<rparr>],
            replacer := (if pin_count (pages s ! nat f) - 1 = 0
                         then Unpin f (replacer s) else replacer s)\<rparr>)"
proof -
  have "frame_ok s f" using assms by (auto simp: bpm_inv_def)
  then show ?thesis
    using assms(2) by (simp add: UnpinPgImp_def set_page_def Let_def)
qed

text \<open>
  Claim C8, amended. \<open>UnpinPgImp\<close> returns false for an unmapped page id and changes
  nothing. For a mapped page id it returns true, ors the argument into the dirty flag and
  decrements the pin count whatever its value is: there is no under-flow check, so a pin
  count of 0 becomes -1. The frame is handed to the replacer exactly when the decremented
  count is zero.
\<close>

theorem UnpinPgImp_contract:
  assumes "bpm_inv s"
  shows "(page_table s pid = None \<longrightarrow> UnpinPgImp s pid d = Inr (False, s)) \<and>
         (\<forall>f. page_table s pid = Some f \<longrightarrow>
            (\<exists>s'. UnpinPgImp s pid d = Inr (True, s') \<and>
               is_dirty (pages s' ! nat f) = (d \<or> is_dirty (pages s ! nat f)) \<and>
               pin_count (pages s' ! nat f) = pin_count (pages s ! nat f) - 1 \<and>
               replacer s' = (if pin_count (pages s ! nat f) = 1
                              then Unpin f (replacer s) else replacer s) \<and>
               page_table s' = page_table s \<and> free_list s' = free_list s \<and> disk s' = disk s))"
proof -
  have "\<exists>s'. UnpinPgImp s pid d = Inr (True, s') \<and>
               is_dirty (pages s' ! nat f) = (d \<or> is_dirty (pages s ! nat f)) \<and>
               pin_count (pages s' ! nat f) = pin_count (pages s ! nat f) - 1 \<and>
               replacer s' = (if pin_count (pages s ! nat f) = 1
                              then Unpin f (replacer s) else replacer s) \<and>
               page_table s' = page_table s \<and> free_list s' = free_list s \<and> disk s' = disk s"
    if m: "page_table s pid = Some f" for f
  proof -
    have "frame_ok s f" using assms m by (auto simp: bpm_inv_def)
    then have "nat f < length (pages s)" by (simp add: frame_ok_def)
    then show ?thesis by (simp add: UnpinPgImp_mapped [OF assms m])
  qed
  then show ?thesis by (simp add: UnpinPgImp_unmapped)
qed

text \<open>
  A pool of one frame after \<open>NewPage\<close>, after one \<open>UnpinPage\<close> of that page, and
  after a second \<open>UnpinPage\<close> of it.
\<close>

definition bpm_pinned_once :: BufferPoolManagerInstance where
  "bpm_pinned_once =
     (BufferPoolManagerInstance_new 1 1 0)
       \<lparr>next_page_id := 1, free_list := [], page_table := [0 \<mapsto> 0],
        pages := [\<lparr>data = replicate PAGE_SIZE 0, page_id = 0, pin_count = 1, is_dirty = False\<rparr>]\<rparr>"

definition bpm_unpinned :: BufferPoolManagerInstance where
  "bpm_unpinned =
     bpm_pinned_once
       \<lparr>pages := [\<lparr>data = replicate PAGE_SIZE 0, page_id = 0, pin_count = 0, is_dirty = False\<rparr>],
        replacer := Unpin 0 LRUReplacer_new\<rparr>"

definition bpm_underflowed :: BufferPoolManagerInstance where
  "bpm_underflowed =
     bpm_unpinned
       \<lparr>pages := [\<lparr>data = replicate PAGE_SIZE 0, page_id = 0, pin_count = - 1, is_dirty = False\<rparr>]\<rparr>"

lemma bpm_trace:
  "NewPgImp (BufferPoolManagerInstance_new 1 1 0) = Inr (Some (0, 0), bpm_pinned_once)"
  "UnpinPgImp bpm_pinned_once 0 False = Inr (True, bpm_unpinned)"
  "UnpinPgImp bpm_unpinned 0 False = Inr (True, bpm_underflowed)"
  by (simp_all add: NewPgImp_def UnpinPgImp_def bpm_pinned_once_def bpm_unpinned_def
      bpm_underflowed_def BufferPoolManagerInstance_new_def pick_frame_def frame_ok_def
      AllocatePage_def ValidatePageId_def to_uint32_def wrap_int32_def set_page_def
      ResetMemory_def Page_new_def Size_def LRUReplacer_new_def Unpin_def Let_def)


lemma bpm_inv_pinned_once: "bpm_inv bpm_pinned_once"
  by (simp add: bpm_inv_def bpm_pinned_once_def BufferPoolManagerInstance_new_def lru_inv_def
      frame_ok_def ValidatePageId_def to_uint32_def tracked_def LRUReplacer_new_def)

lemma bpm_inv_unpinned: "bpm_inv bpm_unpinned"
  by (simp add: bpm_inv_def bpm_unpinned_def bpm_pinned_once_def BufferPoolManagerInstance_new_def
      lru_inv_def frame_ok_def ValidatePageId_def to_uint32_def tracked_def LRUReplacer_new_def
      Unpin_def)

theorem UnpinPgImp_contract_witness:
  "bpm_inv bpm_pinned_once \<and>
   UnpinPgImp bpm_pinned_once 5 True = Inr (False, bpm_pinned_once) \<and>
   (\<exists>s'. UnpinPgImp bpm_pinned_once 0 True = Inr (True, s') \<and>
      is_dirty (pages s' ! 0) \<and> pin_count (pages s' ! 0) = 0 \<and> tracked (replacer s') = [0])"
proof -
  have ev: "page_table bpm_pinned_once 5 = None" "page_table bpm_pinned_once 0 = Some 0"
    "pin_count (pages bpm_pinned_once ! 0) = 1"
    "tracked (Unpin 0 (replacer bpm_pinned_once)) = [0]"
    by (simp_all add: bpm_pinned_once_def BufferPoolManagerInstance_new_def LRUReplacer_new_def
        Unpin_def tracked_def)
  have a: "UnpinPgImp bpm_pinned_once 5 True = Inr (False, bpm_pinned_once)"
    using UnpinPgImp_contract [OF bpm_inv_pinned_once, of 5 True] ev by simp
  from UnpinPgImp_contract [OF bpm_inv_pinned_once, of 0 True] ev(2) obtain s' where
    h: "UnpinPgImp bpm_pinned_once 0 True = Inr (True, s')"
       "is_dirty (pages s' ! nat 0) = (True \<or> is_dirty (pages bpm_pinned_once ! nat 0))"
       "pin_count (pages s' ! nat 0) = pin_count (pages bpm_pinned_once ! nat 0) - 1"
       "replacer s' = (if pin_count (pages bpm_pinned_once ! nat 0) = 1
                       then Unpin 0 (replacer bpm_pinned_once) else replacer bpm_pinned_once)"
    by blast
  have b: "\<exists>s'. UnpinPgImp bpm_pinned_once 0 True = Inr (True, s') \<and>
      is_dirty (pages s' ! 0) \<and> pin_count (pages s' ! 0) = 0 \<and> tracked (replacer s') = [0]"
    using h ev by (intro exI [of _ s']) simp
  show ?thesis using bpm_inv_pinned_once a b by blast
qed

text \<open>
  The second unpin of a page whose pin count has reached zero is not stopped by any
  assertion: it returns true and leaves the pin count at -1.
\<close>

theorem UnpinPgImp_underflow_counterexample:
  "NewPgImp (BufferPoolManagerInstance_new 1 1 0) = Inr (Some (0, 0), bpm_pinned_once) \<and>
   UnpinPgImp bpm_pinned_once 0 False = Inr (True, bpm_unpinned) \<and>
   pin_count (pages bpm_unpinned ! 0) = 0 \<and>
   UnpinPgImp bpm_unpinned 0 False = Inr (True, bpm_underflowed) \<and>
   pin_count (pages bpm_underflowed ! 0) = - 1"
proof -
  have "pin_count (pages bpm_unpinned ! 0) = 0" "pin_count (pages bpm_underflowed ! 0) = - 1"
    by (simp_all add: bpm_unpinned_def bpm_underflowed_def)
  then show ?thesis using bpm_trace by blast
qed

lemma DeletePgImp_unmapped: "page_table s pid = None \<Longrightarrow> DeletePgImp s pid = Inr (True, s)"
  by (simp add: DeletePgImp_def)

lemma DeletePgImp_pinned:
  assumes "bpm_inv s" "page_table s pid = Some f" "pin_count (pages s ! nat f) \<noteq> 0"
  shows "DeletePgImp s pid = Inr (False, s)"
proof -
  have "frame_ok s f" using assms by (auto simp: bpm_inv_def)
  then show ?thesis using assms(2,3) by (simp add: DeletePgImp_def)
qed

lemma DeletePgImp_free:
  assumes "bpm_inv s" "page_table s pid = Some f" "pin_count (pages s ! nat f) = 0"
  shows "DeletePgImp s pid =
     Inr (True,
          s\<lparr>disk := (if is_dirty (pages s ! nat f)
                     then (disk s)(page_id (pages s ! nat f) \<mapsto> data (pages s ! nat f))
                     else disk s),
            pages := (pages s)[nat f :=
                        \<lparr>data = replicate PAGE_SIZE 0, page_id = INVALID_PAGE_ID,
                         pin_count = 0, is_dirty = False\<rparr>],
            free_list := free_list s @ [f],
            replacer := Pin f (replacer s),
            page_table := (page_table s)(pid := None)\<rparr>)"
proof -
  have ok: "frame_ok s f" using assms by (auto simp: bpm_inv_def)
  have pg: "(pages s ! nat f)\<lparr>data := replicate PAGE_SIZE 0, page_id := INVALID_PAGE_ID,
      is_dirty := False\<rparr> =
      \<lparr>data = replicate PAGE_SIZE 0, page_id = INVALID_PAGE_ID, pin_count = 0, is_dirty = False\<rparr>"
    using assms(3) by (cases "pages s ! nat f") simp
  show ?thesis
    using assms(2,3) ok
    by (auto simp add: DeletePgImp_def WritePage_def set_page_def ResetMemory_def Let_def pg
        intro!: BufferPoolManagerInstance.equality)
qed

text \<open>
  Claim C7, amended. \<open>DeletePgImp\<close> returns true and changes nothing for an unmapped page
  id; it returns false and changes nothing when the page is mapped and its pin count is not
  zero (positive, or negative after an under-flowing unpin); for a mapped page with pin
  count zero it writes the frame to disk if it is dirty, zeroes the frame and resets its
  page id to \<open>INVALID_PAGE_ID\<close> and its dirty flag to false, appends the frame to the
  free list, removes it from the replacer, erases the page-table entry and returns true.
\<close>

theorem DeletePgImp_contract:
  assumes "bpm_inv s"
  shows "(page_table s pid = None \<longrightarrow> DeletePgImp s pid = Inr (True, s)) \<and>
         (\<forall>f. page_table s pid = Some f \<and> pin_count (pages s ! nat f) \<noteq> 0 \<longrightarrow>
            DeletePgImp s pid = Inr (False, s)) \<and>
         (\<forall>f. page_table s pid = Some f \<and> pin_count (pages s ! nat f) = 0 \<longrightarrow>
            (\<exists>s'. DeletePgImp s pid = Inr (True, s') \<and>
               disk s' = (if is_dirty (pages s ! nat f)
                          then (disk s)(page_id (pages s ! nat f) \<mapsto> data (pages s ! nat f))
                          else disk s) \<and>
               pages s' = (pages s)[nat f :=
                            \<lparr>data = replicate PAGE_SIZE 0, page_id = INVALID_PAGE_ID,
                             pin_count = 0, is_dirty = False\<rparr>] \<and>
               free_list s' = free_list s @ [f] \<and>
               tracked (replacer s') = removeAll f (tracked (replacer s)) \<and>
               page_table s' = (page_table s)(pid := None)))"
proof -
  have lru: "lru_inv (replacer s)" using assms by (simp add: bpm_inv_def)
  show ?thesis
    using DeletePgImp_unmapped [of s pid] DeletePgImp_pinned [OF assms, of pid]
      DeletePgImp_free [OF assms, of pid] Pin_tracked [OF lru]
    by simp
qed

theorem DeletePgImp_contract_witness:
  "bpm_inv bpm_unpinned \<and>
   DeletePgImp bpm_unpinned 5 = Inr (True, bpm_unpinned) \<and>
   bpm_inv bpm_pinned_once \<and>
   DeletePgImp bpm_pinned_once 0 = Inr (False, bpm_pinned_once) \<and>
   (\<exists>s'. DeletePgImp bpm_unpinned 0 = Inr (True, s') \<and>
      pages s' = [\<lparr>data = replicate PAGE_SIZE 0, page_id = INVALID_PAGE_ID,
                   pin_count = 0, is_dirty = False\<rparr>] \<and>
      free_list s' = [0] \<and> tracked (replacer s') = [] \<and> page_table s' = Map.empty \<and>
      disk s' = Map.empty)"
proof -
  have ev: "page_table bpm_unpinned 5 = None" "page_table bpm_unpinned 0 = Some 0"
    "pin_count (pages bpm_unpinned ! nat 0) = 0" "free_list bpm_unpinned = []"
    "tracked (replacer bpm_unpinned) = [0]" "is_dirty (pages bpm_unpinned ! nat 0) = False"
    "disk bpm_unpinned = Map.empty" "page_table bpm_unpinned = [0 \<mapsto> 0]"
    "length (pages bpm_unpinned) = 1"
    by (simp_all add: bpm_unpinned_def bpm_pinned_once_def BufferPoolManagerInstance_new_def
        LRUReplacer_new_def Unpin_def tracked_def)
  have ev1: "page_table bpm_pinned_once 0 = Some 0" "pin_count (pages bpm_pinned_once ! nat 0) = 1"
    by (simp_all add: bpm_pinned_once_def BufferPoolManagerInstance_new_def)
  have a: "DeletePgImp bpm_unpinned 5 = Inr (True, bpm_unpinned)"
    using DeletePgImp_contract [OF bpm_inv_unpinned, of 5] ev by simp
  have b: "DeletePgImp bpm_pinned_once 0 = Inr (False, bpm_pinned_once)"
    using DeletePgImp_contract [OF bpm_inv_pinned_once, of 0] ev1 by simp
  from DeletePgImp_contract [OF bpm_inv_unpinned, of 0] ev(2,3) obtain s' where
    h: "DeletePgImp bpm_unpinned 0 = Inr (True, s')"
       "disk s' = (if is_dirty (pages bpm_unpinned ! nat 0)
                   then (disk bpm_unpinned)(page_id (pages bpm_unpinned ! nat 0) \<mapsto>
                          data (pages bpm_unpinned ! nat 0))
                   else disk bpm_unpinned)"
       "pages s' = (pages bpm_unpinned)[nat 0 :=
                            \<lparr>data = replicate PAGE_SIZE 0, page_id = INVALID_PAGE_ID,
                             pin_count = 0, is_dirty = False\<rparr>]"
       "free_list s' = free_list bpm_unpinned @ [0]"
       "tracked (replacer s') = removeAll 0 (tracked (replacer bpm_unpinned))"
       "page_table s' = (page_table bpm_unpinned)(0 := None)"
    by blast
  have pg: "(pages bpm_unpinned)[nat 0 := x] = [x]" for x
    by (simp add: bpm_unpinned_def)
  have c: "\<exists>s'. DeletePgImp bpm_unpinned 0 = Inr (True, s') \<and>
      pages s' = [\<lparr>data = replicate PAGE_SIZE 0, page_id = INVALID_PAGE_ID,
                   pin_count = 0, is_dirty = False\<rparr>] \<and>
      free_list s' = [0] \<and> tracked (replacer s') = [] \<and> page_table s' = Map.empty \<and>
      disk s' = Map.empty"
    using h ev pg by (intro exI [of _ s']) simp
  show ?thesis using bpm_inv_pinned_once bpm_inv_unpinned a b c by blast
qed

text \<open>
  With the pin count at -1 after an under-flowing unpin the page is mapped and its pin
  count is not greater than zero, yet \<open>DeletePgImp\<close> refuses to delete it.
\<close>

theorem DeletePgImp_negative_pin_counterexample:
  "UnpinPgImp bpm_unpinned 0 False = Inr (True, bpm_underflowed) \<and>
   page_table bpm_underflowed 0 = Some 0 \<and>
   \<not> 0 < pin_count (pages bpm_underflowed ! nat 0) \<and>
   DeletePgImp bpm_underflowed 0 = Inr (False, bpm_underflowed)"
proof -
  have "page_table bpm_underflowed 0 = Some 0"
    "\<not> 0 < pin_count (pages bpm_underflowed ! nat 0)"
    "DeletePgImp bpm_underflowed 0 = Inr (False, bpm_underflowed)"
    by (simp_all add: DeletePgImp_def bpm_unpinned_def bpm_underflowed_def bpm_pinned_once_def
        BufferPoolManagerInstance_new_def frame_ok_def)
  then show ?thesis using bpm_trace(3) by blast
qed


section \<open>Bucket page (src/storage/page/hash_table_bucket_page.cpp)\<close>

text \<open>
  The model follows the instantiation \<open>HashTableBucketPage<int, int, IntComparator>\<close>.
  The capacity \<open>BUCKET_ARRAY_SIZE\<close> is a compile-time constant whose defining macro is
  not part of the sources at hand; it is the parameter \<open>N\<close> of every function that loops
  over the slots. A page consists of the two bitmaps \<open>occupied_\<close> and \<open>readable_\<close>
  of \<open>(N - 1) / 8 + 1\<close> bytes each and the array of \<open>N\<close> key-value pairs. The bit of
  slot \<open>i\<close> is bit \<open>7 - i % 8\<close> of byte \<open>i / 8\<close>.

  Modelled from the spec: \<open>IntComparator\<close>, whose class is declared in a header that is
  not part of the sources; it returns a negative number, zero or a positive number.
\<close>

type_synonym KeyType = int
type_synonym ValueType = int

definition IntComparator :: "KeyType \<Rightarrow> KeyType \<Rightarrow> int" where
  "IntComparator lhs rhs = (if lhs < rhs then - 1 else if rhs < lhs then 1 else 0)"

record HashTableBucketPage =
  occupied :: "8 word list"
  readable :: "8 word list"
  array :: "(KeyType \<times> ValueType) list"

definition bitmap_bytes :: "nat \<Rightarrow> nat" where
  "bitmap_bytes N = (N - 1) div 8 + 1"

definition zero_page :: "nat \<Rightarrow> HashTableBucketPage" where
  "zero_page N =
     \<lparr>occupied = replicate (bitmap_bytes N) 0, readable = replicate (bitmap_bytes N) 0,
      array = replicate N (0, 0)\<rparr>"

definition KeyAt :: "HashTableBucketPage \<Rightarrow> nat \<Rightarrow> KeyType" where
  "KeyAt b bucket_idx = fst (array b ! bucket_idx)"

definition ValueAt :: "HashTableBucketPage \<Rightarrow> nat \<Rightarrow> ValueType" where
  "ValueAt b bucket_idx = snd (array b ! bucket_idx)"

definition RemoveAt :: "HashTableBucketPage \<Rightarrow> nat \<Rightarrow> HashTableBucketPage" where
  "RemoveAt b bucket_idx =
     b\<lparr>readable := (readable b)
         [bucket_idx div 8 :=
            (readable b ! (bucket_idx div 8)) AND NOT (push_bit (7 - bucket_idx mod 8) 1)]\<rparr>"

definition IsOccupied :: "HashTableBucketPage \<Rightarrow> nat \<Rightarrow> bool" where
  "IsOccupied b bucket_idx \<longleftrightarrow>
     (occupied b ! (bucket_idx div 8)) AND push_bit (7 - bucket_idx mod 8) 1 \<noteq> 0"

definition SetOccupied :: "HashTableBucketPage \<Rightarrow> nat \<Rightarrow> HashTableBucketPage" where
  "SetOccupied b bucket_idx =
     b\<lparr>occupied := (occupied b)
         [bucket_idx div 8 :=
            (occupied b ! (bucket_idx div 8)) OR push_bit (7 - bucket_idx mod 8) 1]\<rparr>"

definition IsReadable :: "HashTableBucketPage \<Rightarrow> nat \<Rightarrow> bool" where
  "IsReadable b bucket_idx \<longleftrightarrow>
     (readable b ! (bucket_idx div 8)) AND push_bit (7 - bucket_idx mod 8) 1 \<noteq> 0"

definition SetReadable :: "HashTableBucketPage \<Rightarrow> nat \<Rightarrow> HashTableBucketPage" where
  "SetReadable b bucket_idx =
     b\<lparr>readable := (readable b)
         [bucket_idx div 8 :=
            (readable b ! (bucket_idx div 8)) OR push_bit (7 - bucket_idx mod 8) 1]\<rparr>"

text \<open>
  The loops over the slots are folds over \<open>[0..<N]\<close>. A \<open>return\<close> from inside a loop
  is a flag in the accumulator that makes the remaining iterations do nothing.
  \<open>GetValue\<close> appends to the vector it is given.
\<close>

definition bucket_GetValue ::
  "nat \<Rightarrow> HashTableBucketPage \<Rightarrow> KeyType \<Rightarrow> ValueType list \<Rightarrow> bool \<times> ValueType list" where
  "bucket_GetValue N b key result =
     foldl (\<lambda>(flag, res) curr_idx.
              if IsReadable b curr_idx \<and> IntComparator (KeyAt b curr_idx) key = 0
              then (True, res @ [ValueAt b curr_idx]) else (flag, res))
       (False, result) [0..<N]"

definition bucket_Insert_scan ::
  "nat \<Rightarrow> HashTableBucketPage \<Rightarrow> KeyType \<Rightarrow> ValueType \<Rightarrow> nat \<Rightarrow> nat \<times> bool" where
  "bucket_Insert_scan N b key val n =
     foldl (\<lambda>(insert_index, found) curr_idx.
              if found then (insert_index, found)
              else (if insert_index = N \<and> \<not> IsReadable b curr_idx then curr_idx else insert_index,
                    IsReadable b curr_idx \<and> IntComparator (fst (array b ! curr_idx)) key = 0
                      \<and> snd (array b ! curr_idx) = val))
       (N, False) [0..<n]"

definition bucket_Insert ::
  "nat \<Rightarrow> HashTableBucketPage \<Rightarrow> KeyType \<Rightarrow> ValueType \<Rightarrow> bool \<times> HashTableBucketPage" where
  "bucket_Insert N b key val =
     (case bucket_Insert_scan N b key val N of
        (insert_index, found) \<Rightarrow>
          if found then (False, b)
          else if insert_index = N then (False, b)
          else (True,
                SetReadable
                  (SetOccupied (b\<lparr>array := (array b)[insert_index := (key, val)]\<rparr>) insert_index)
                  insert_index))"

definition bucket_Remove ::
  "nat \<Rightarrow> HashTableBucketPage \<Rightarrow> KeyType \<Rightarrow> ValueType \<Rightarrow> bool \<times> HashTableBucketPage" where
  "bucket_Remove N b key val =
     foldl (\<lambda>(flag, pg) curr_idx.
              if IsReadable pg curr_idx \<and> IntComparator (KeyAt pg curr_idx) key = 0
                 \<and> ValueAt pg curr_idx = val
              then (True, RemoveAt pg curr_idx) else (flag, pg))
       (False, b) [0..<N]"

definition IsFull :: "nat \<Rightarrow> HashTableBucketPage \<Rightarrow> bool" where
  "IsFull N b \<longleftrightarrow> list_all (\<lambda>i. \<not> ((readable b ! i) AND 0xff \<noteq> 0)) [0..<(N - 1) div 8 + 1]"

definition NumReadable :: "nat \<Rightarrow> HashTableBucketPage \<Rightarrow> nat" where
  "NumReadable N b = foldl (\<lambda>ans curr_idx. ans + (if IsReadable b curr_idx then 1 else 0)) 0 [0..<N]"

definition IsEmpty :: "nat \<Rightarrow> HashTableBucketPage \<Rightarrow> bool" where
  "IsEmpty N b \<longleftrightarrow> list_all (\<lambda>i. \<not> IsReadable b i) [0..<N]"

subsection \<open>The bitmaps, bit by bit\<close>

definition bit_at :: "8 word list \<Rightarrow> nat \<Rightarrow> bool" where
  "bit_at bm i \<longleftrightarrow> bit (bm ! (i div 8)) (7 - i mod 8)"

lemma IsReadable_bit: "IsReadable b i = bit_at (readable b) i"
  by (simp add: IsReadable_def bit_at_def and_exp_eq_0_iff_not_bit)

lemma IsOccupied_bit: "IsOccupied b i = bit_at (occupied b) i"
  by (simp add: IsOccupied_def bit_at_def and_exp_eq_0_iff_not_bit)

lemma idx_eq: "i div 8 = j div 8 \<Longrightarrow> (7::nat) - i mod 8 = 7 - j mod 8 \<Longrightarrow> i = (j::nat)"
proof -
  assume d: "i div 8 = j div 8" and m: "(7::nat) - i mod 8 = 7 - j mod 8"
  have "i mod 8 < 8" "j mod 8 < 8" by simp_all
  then have "i mod 8 = j mod 8" using m by linarith
  then show ?thesis using d by (metis mod_div_mult_eq)
qed

lemma word8_set_bit: "k < 8 \<Longrightarrow> bit ((w :: 8 word) OR push_bit k 1) m = (bit w m \<or> m = k)"
  by (auto simp: bit_simps)

lemma word8_clear_bit: "bit ((w :: 8 word) AND NOT (push_bit k 1)) m = (bit w m \<and> m \<noteq> k)"
  by (auto simp: bit_simps dest: bit_imp_possible_bit)

lemma bit_at_upd:
  "k < length bm \<Longrightarrow> bit_at (bm[k := w]) j = (if j div 8 = k then bit w (7 - j mod 8) else bit_at bm j)"
  by (simp add: bit_at_def)

lemma bit_at_set:
  assumes "i div 8 < length bm"
  shows "bit_at (bm[i div 8 := (bm ! (i div 8)) OR push_bit (7 - i mod 8) 1]) j = (j = i \<or> bit_at bm j)"
proof (cases "j div 8 = i div 8")
  case False
  then have "j \<noteq> i" by auto
  then show ?thesis using False assms by (simp only: bit_at_upd if_False simp_thms)
next
  case True
  have e: "(7 - j mod 8 = 7 - i mod 8) = (j = i)" using True idx_eq by blast
  have "bit_at (bm[i div 8 := (bm ! (i div 8)) OR push_bit (7 - i mod 8) 1]) j =
        bit ((bm ! (i div 8)) OR push_bit (7 - i mod 8) 1) (7 - j mod 8)"
    using True assms by (simp only: bit_at_upd if_True refl simp_thms)
  also have "\<dots> = (bit (bm ! (i div 8)) (7 - j mod 8) \<or> 7 - j mod 8 = 7 - i mod 8)"
    by (rule word8_set_bit) simp
  also have "\<dots> = (bit_at bm j \<or> j = i)"
    unfolding e bit_at_def True ..
  finally show ?thesis by blast
qed

lemma bit_at_clear:
  assumes "i div 8 < length bm"
  shows "bit_at (bm[i div 8 := (bm ! (i div 8)) AND NOT (push_bit (7 - i mod 8) 1)]) j =
     (j \<noteq> i \<and> bit_at bm j)"
proof (cases "j div 8 = i div 8")
  case False
  then have "j \<noteq> i" by auto
  then show ?thesis using False assms by (simp only: bit_at_upd if_False simp_thms)
next
  case True
  have e: "(7 - j mod 8 = 7 - i mod 8) = (j = i)" using True idx_eq by blast
  have "bit_at (bm[i div 8 := (bm ! (i div 8)) AND NOT (push_bit (7 - i mod 8) 1)]) j =
        bit ((bm ! (i div 8)) AND NOT (push_bit (7 - i mod 8) 1)) (7 - j mod 8)"
    using True assms by (simp only: bit_at_upd if_True refl simp_thms)
  also have "\<dots> = (bit (bm ! (i div 8)) (7 - j mod 8) \<and> 7 - j mod 8 \<noteq> 7 - i mod 8)"
    by (rule word8_clear_bit)
  also have "\<dots> = (bit_at bm j \<and> j \<noteq> i)"
    unfolding e bit_at_def True ..
  finally show ?thesis by blast
qed

lemma bit_at_clear_other:
  "j \<noteq> i \<Longrightarrow>
   bit_at (bm[i div 8 := (bm ! (i div 8)) AND NOT (push_bit (7 - i mod 8) 1)]) j = bit_at bm j"
proof (cases "i div 8 < length bm")
  case True
  assume "j \<noteq> i"
  then show ?thesis using bit_at_clear [OF True, of j] by simp
next
  case False
  then have "bm[i div 8 := (bm ! (i div 8)) AND NOT (push_bit (7 - i mod 8) 1)] = bm"
    by (simp only: list_update_beyond not_less)
  then show ?thesis by (simp only:)
qed



subsection \<open>IsFull, IsEmpty and NumReadable\<close>

definition all_readable_page :: "nat \<Rightarrow> HashTableBucketPage" where
  "all_readable_page N =
     \<lparr>occupied = replicate (bitmap_bytes N) 255, readable = replicate (bitmap_bytes N) 255,
      array = replicate N (0, 0)\<rparr>"

lemma slot_byte_in_range: "i < N \<Longrightarrow> i div 8 < bitmap_bytes N"
proof -
  assume "i < N"
  then have "i \<le> N - 1" by simp
  then have "i div 8 \<le> (N - 1) div 8" by (rule div_le_mono)
  then show ?thesis by (simp add: bitmap_bytes_def)
qed

lemma byte_255: "(255 :: 8 word) = - 1"
  by simp

lemma bit_byte_255: "k < 8 \<Longrightarrow> bit (255 :: 8 word) k"
  by (simp only: byte_255 bit_minus_1_iff) simp

lemma IsFull_iff_bytes_zero:
  "IsFull N b \<longleftrightarrow> (\<forall>i < bitmap_bytes N. readable b ! i = 0)"
proof -
  have "w AND 255 = w" for w :: "8 word"
    by (simp only: byte_255 and.right_neutral)
  then show ?thesis by (auto simp add: IsFull_def list_all_iff bitmap_bytes_def simp del: upt_Suc)
qed

lemma NumReadable_eq: "NumReadable N b = length (filter (IsReadable b) [0..<N])"
proof -
  have "foldl (\<lambda>ans curr_idx. ans + (if IsReadable b curr_idx then 1 else 0)) a [0..<n] =
        a + length (filter (IsReadable b) [0..<n])" for a n
    by (induction n) simp_all
  then show ?thesis by (simp add: NumReadable_def)
qed

lemma IsReadable_zero_page: "i < N \<Longrightarrow> \<not> IsReadable (zero_page N) i"
  by (simp add: IsReadable_bit bit_at_def zero_page_def slot_byte_in_range)

lemma IsOccupied_zero_page: "i < N \<Longrightarrow> \<not> IsOccupied (zero_page N) i"
  by (simp add: IsOccupied_bit bit_at_def zero_page_def slot_byte_in_range)

lemma IsReadable_all_readable_page: "i < N \<Longrightarrow> IsReadable (all_readable_page N) i"
proof -
  assume "i < N"
  moreover have "bit (255 :: 8 word) (7 - i mod 8)"
    by (rule bit_byte_255) arith
  ultimately show ?thesis
    by (simp only: IsReadable_bit bit_at_def all_readable_page_def slot_byte_in_range
        HashTableBucketPage.simps nth_replicate)
qed

lemma IsFull_zero_page: "IsFull N (zero_page N)"
  by (simp add: IsFull_iff_bytes_zero zero_page_def)

lemma not_IsFull_all_readable_page: "\<not> IsFull N (all_readable_page N)"
proof -
  have "0 < bitmap_bytes N" by (simp add: bitmap_bytes_def)
  moreover have "readable (all_readable_page N) ! 0 \<noteq> 0"
    using \<open>0 < bitmap_bytes N\<close> by (simp add: all_readable_page_def)
  ultimately show ?thesis unfolding IsFull_iff_bytes_zero by blast
qed

lemma NumReadable_zero_page: "NumReadable N (zero_page N) = 0"
  by (simp add: NumReadable_eq IsReadable_zero_page)

lemma NumReadable_all_readable_page: "NumReadable N (all_readable_page N) = N"
proof -
  have "filter (IsReadable (all_readable_page N)) [0..<N] = [0..<N]"
    by (rule filter_True) (simp add: IsReadable_all_readable_page)
  then show ?thesis by (simp add: NumReadable_eq)
qed

text \<open>
  Claim C2 says that \<open>IsFull\<close> holds if and only if every slot is readable. The loop of
  \<open>IsFull\<close> returns false as soon as a byte of the readable bitmap is different from
  zero (\<open>IsFull_iff_bytes_zero\<close>), so it holds exactly for the pages on which no bit of
  the bitmap is set. At the capacity 496 of the \<open>int\<close>/\<open>int\<close> instantiation: the
  zeroed page, with no readable slot, is reported full, and the page with all 496 slots
  readable is reported not full.
\<close>

theorem IsFull_tests_for_zero_bytes:
  "IsFull 496 (zero_page 496) \<and>
   IsReadable (zero_page 496) 0 = False \<and>
   NumReadable 496 (zero_page 496) = 0 \<and>
   IsFull 496 (all_readable_page 496) = False \<and>
   NumReadable 496 (all_readable_page 496) = 496"
  using IsFull_zero_page [of 496] IsReadable_zero_page [of 0 496] NumReadable_zero_page [of 496]
    not_IsFull_all_readable_page [of 496] NumReadable_all_readable_page [of 496]
  by simp

subsection \<open>Slots of a well-formed page\<close>

definition bucket_wf :: "nat \<Rightarrow> HashTableBucketPage \<Rightarrow> bool" where
  "bucket_wf N b \<longleftrightarrow>
     length (occupied b) = bitmap_bytes N \<and> length (readable b) = bitmap_bytes N \<and>
     length (array b) = N"

lemma bucket_wf_zero_page: "bucket_wf N (zero_page N)"
  by (simp add: bucket_wf_def zero_page_def)

lemma IntComparator_eq [simp]: "IntComparator a b = 0 \<longleftrightarrow> a = b"
  by (auto simp: IntComparator_def)

lemma RemoveAt_fields [simp]:
  "array (RemoveAt b i) = array b" "occupied (RemoveAt b i) = occupied b"
  "length (readable (RemoveAt b i)) = length (readable b)"
  by (simp_all add: RemoveAt_def del: push_bit_of_1)

lemma SetReadable_fields [simp]:
  "array (SetReadable b i) = array b" "occupied (SetReadable b i) = occupied b"
  "length (readable (SetReadable b i)) = length (readable b)"
  by (simp_all add: SetReadable_def del: push_bit_of_1)

lemma SetOccupied_fields [simp]:
  "array (SetOccupied b i) = array b" "readable (SetOccupied b i) = readable b"
  "length (occupied (SetOccupied b i)) = length (occupied b)"
  by (simp_all add: SetOccupied_def del: push_bit_of_1)

lemma IsReadable_RemoveAt_other: "j \<noteq> i \<Longrightarrow> IsReadable (RemoveAt b i) j = IsReadable b j"
  by (simp add: IsReadable_bit RemoveAt_def bit_at_clear_other del: push_bit_of_1)

lemma IsReadable_RemoveAt:
  "bucket_wf N b \<Longrightarrow> i < N \<Longrightarrow> IsReadable (RemoveAt b i) j = (j \<noteq> i \<and> IsReadable b j)"
  by (simp add: IsReadable_bit RemoveAt_def bit_at_clear bucket_wf_def slot_byte_in_range
      del: push_bit_of_1)

lemma IsReadable_SetReadable:
  "bucket_wf N b \<Longrightarrow> i < N \<Longrightarrow> IsReadable (SetReadable b i) j = (j = i \<or> IsReadable b j)"
  by (simp add: IsReadable_bit SetReadable_def bit_at_set bucket_wf_def slot_byte_in_range
      del: push_bit_of_1)

lemma IsOccupied_SetOccupied:
  "bucket_wf N b \<Longrightarrow> i < N \<Longrightarrow> IsOccupied (SetOccupied b i) j = (j = i \<or> IsOccupied b j)"
  by (simp add: IsOccupied_bit SetOccupied_def bit_at_set bucket_wf_def slot_byte_in_range
      del: push_bit_of_1)

lemma IsReadable_SetOccupied [simp]: "IsReadable (SetOccupied b i) j = IsReadable b j"
  by (simp add: IsReadable_bit)

lemma IsOccupied_SetReadable [simp]: "IsOccupied (SetReadable b i) j = IsOccupied b j"
  by (simp add: IsOccupied_bit)

lemma IsOccupied_RemoveAt [simp]: "IsOccupied (RemoveAt b i) j = IsOccupied b j"
  by (simp add: IsOccupied_bit)

lemma IsReadable_array_update [simp]: "IsReadable (b\<lparr>array := a\<rparr>) j = IsReadable b j"
  by (simp add: IsReadable_bit)

lemma IsOccupied_array_update [simp]: "IsOccupied (b\<lparr>array := a\<rparr>) j = IsOccupied b j"
  by (simp add: IsOccupied_bit)

lemma bucket_wf_RemoveAt [simp]: "bucket_wf N (RemoveAt b i) = bucket_wf N b"
  by (simp add: bucket_wf_def)

lemma bucket_wf_SetReadable [simp]: "bucket_wf N (SetReadable b i) = bucket_wf N b"
  by (simp add: bucket_wf_def)

lemma bucket_wf_SetOccupied [simp]: "bucket_wf N (SetOccupied b i) = bucket_wf N b"
  by (simp add: bucket_wf_def)

lemma bucket_wf_array_update [simp]:
  "bucket_wf N (b\<lparr>array := (array b)[i := e]\<rparr>) = bucket_wf N b"
  by (simp add: bucket_wf_def)

subsection \<open>The scans of Insert and SplitInsert\<close>

text \<open>
  \<open>bucket_has N b e\<close>: some readable slot holds the pair \<open>e\<close>.
\<close>

definition bucket_has :: "nat \<Rightarrow> HashTableBucketPage \<Rightarrow> KeyType \<times> ValueType \<Rightarrow> bool" where
  "bucket_has n b e \<longleftrightarrow> (\<exists>i<n. IsReadable b i \<and> array b ! i = e)"

lemma bucket_has_Suc:
  "bucket_has (Suc n) b e \<longleftrightarrow> bucket_has n b e \<or> (IsReadable b n \<and> array b ! n = e)"
  by (auto simp: bucket_has_def less_Suc_eq)

lemma bucket_has_0 [simp]: "\<not> bucket_has 0 b e"
  by (simp add: bucket_has_def)

lemma bucket_Insert_scan_found:
  "snd (bucket_Insert_scan N b key val n) = bucket_has n b (key, val)"
proof (induction n)
  case 0
  then show ?case by (simp add: bucket_Insert_scan_def)
next
  case (Suc n)
  obtain ins fnd where r: "bucket_Insert_scan N b key val n = (ins, fnd)"
    by (cases "bucket_Insert_scan N b key val n")
  then have u: "foldl (\<lambda>(insert_index, found) curr_idx.
              if found then (insert_index, found)
              else (if insert_index = N \<and> \<not> IsReadable b curr_idx then curr_idx else insert_index,
                    IsReadable b curr_idx \<and> IntComparator (fst (array b ! curr_idx)) key = 0
                      \<and> snd (array b ! curr_idx) = val))
       (N, False) [0..<n] = (ins, fnd)"
    by (simp add: bucket_Insert_scan_def)
  have "fnd = bucket_has n b (key, val)" using Suc.IH r by simp
  then show ?case
    by (auto simp add: bucket_Insert_scan_def u bucket_has_Suc prod_eq_iff)
qed

lemma bucket_Insert_scan_index:
  assumes "n \<le> N" "\<not> bucket_has n b (key, val)"
  shows "(fst (bucket_Insert_scan N b key val n) = N \<longleftrightarrow> (\<forall>i<n. IsReadable b i)) \<and>
         (fst (bucket_Insert_scan N b key val n) \<noteq> N \<longrightarrow>
            fst (bucket_Insert_scan N b key val n) < n \<and>
            \<not> IsReadable b (fst (bucket_Insert_scan N b key val n)))"
  using assms
proof (induction n)
  case 0
  then show ?case by (simp add: bucket_Insert_scan_def)
next
  case (Suc n)
  obtain ins fnd where r: "bucket_Insert_scan N b key val n = (ins, fnd)"
    by (cases "bucket_Insert_scan N b key val n")
  then have u: "foldl (\<lambda>(insert_index, found) curr_idx.
              if found then (insert_index, found)
              else (if insert_index = N \<and> \<not> IsReadable b curr_idx then curr_idx else insert_index,
                    IsReadable b curr_idx \<and> IntComparator (fst (array b ! curr_idx)) key = 0
                      \<and> snd (array b ! curr_idx) = val))
       (N, False) [0..<n] = (ins, fnd)"
    by (simp add: bucket_Insert_scan_def)
  have nh: "\<not> bucket_has n b (key, val)" using Suc.prems by (simp add: bucket_has_Suc)
  then have nf: "\<not> fnd" using bucket_Insert_scan_found [of N b key val n] r by simp
  have ih: "(ins = N \<longleftrightarrow> (\<forall>i<n. IsReadable b i)) \<and> (ins \<noteq> N \<longrightarrow> ins < n \<and> \<not> IsReadable b ins)"
    using Suc.IH [OF _ nh] Suc.prems(1) r by simp
  have e: "fst (bucket_Insert_scan N b key val (Suc n)) =
           (if ins = N \<and> \<not> IsReadable b n then n else ins)"
    using nf by (simp add: bucket_Insert_scan_def u)
  show ?case
    unfolding e using ih Suc.prems(1) by (auto simp: less_Suc_eq)
qed


subsection \<open>Insert, Remove and GetValue on the slots\<close>

lemma bucket_Insert_fail_iff:
  "\<not> fst (bucket_Insert N b key val) \<longleftrightarrow>
     bucket_has N b (key, val) \<or> (\<forall>i<N. IsReadable b i)"
proof (cases "bucket_has N b (key, val)")
  case True
  then have "snd (bucket_Insert_scan N b key val N)" by (simp add: bucket_Insert_scan_found)
  then show ?thesis using True by (auto simp add: bucket_Insert_def split: prod.splits)
next
  case False
  then have nf: "\<not> snd (bucket_Insert_scan N b key val N)" by (simp add: bucket_Insert_scan_found)
  have "fst (bucket_Insert_scan N b key val N) = N \<longleftrightarrow> (\<forall>i<N. IsReadable b i)"
    using bucket_Insert_scan_index [OF le_refl False] by simp
  then show ?thesis using False nf by (auto simp add: bucket_Insert_def split: prod.splits)
qed

lemma bucket_Insert_unchanged:
  "\<not> fst (bucket_Insert N b key val) \<Longrightarrow> snd (bucket_Insert N b key val) = b"
  by (auto simp add: bucket_Insert_def split: prod.splits if_splits)

lemma bucket_Insert_success:
  assumes "fst (bucket_Insert N b key val)" "bucket_wf N b"
  obtains j where "j < N" "\<not> IsReadable b j"
    "snd (bucket_Insert N b key val) =
       SetReadable (SetOccupied (b\<lparr>array := (array b)[j := (key, val)]\<rparr>) j) j"
proof -
  have nh: "\<not> bucket_has N b (key, val)" using assms(1) bucket_Insert_fail_iff by blast
  then have nf: "\<not> snd (bucket_Insert_scan N b key val N)" by (simp add: bucket_Insert_scan_found)
  let ?j = "fst (bucket_Insert_scan N b key val N)"
  have jn: "?j \<noteq> N"
    using assms(1) nf by (auto simp add: bucket_Insert_def split: prod.splits if_splits)
  then have "?j < N" "\<not> IsReadable b ?j"
    using bucket_Insert_scan_index [OF le_refl nh] by simp_all
  moreover have "snd (bucket_Insert N b key val) =
       SetReadable (SetOccupied (b\<lparr>array := (array b)[?j := (key, val)]\<rparr>) ?j) ?j"
    using nf jn by (auto simp add: bucket_Insert_def split: prod.splits)
  ultimately show ?thesis using that by blast
qed

lemma bucket_Insert_wf:
  "bucket_wf N b \<Longrightarrow> bucket_wf N (snd (bucket_Insert N b key val))"
proof (cases "fst (bucket_Insert N b key val)")
  case False
  assume "bucket_wf N b"
  then show ?thesis using False by (simp add: bucket_Insert_unchanged)
next
  case True
  assume wf: "bucket_wf N b"
  from bucket_Insert_success [OF True wf] obtain j where
    "snd (bucket_Insert N b key val) =
       SetReadable (SetOccupied (b\<lparr>array := (array b)[j := (key, val)]\<rparr>) j) j"
    by blast
  then show ?thesis using wf by simp
qed

text \<open>
  The readable slots hold pairwise different pairs, and every readable slot is marked
  occupied (BK-1).
\<close>

definition bucket_distinct :: "nat \<Rightarrow> HashTableBucketPage \<Rightarrow> bool" where
  "bucket_distinct N b \<longleftrightarrow>
     (\<forall>i<N. \<forall>j<N. IsReadable b i \<and> IsReadable b j \<and> array b ! i = array b ! j \<longrightarrow> i = j)"

definition bucket_BK1 :: "nat \<Rightarrow> HashTableBucketPage \<Rightarrow> bool" where
  "bucket_BK1 N b \<longleftrightarrow> (\<forall>i<N. IsReadable b i \<longrightarrow> IsOccupied b i)"

lemma bucket_Insert_has:
  assumes "bucket_wf N b"
  shows "bucket_has N (snd (bucket_Insert N b key val)) e \<longleftrightarrow>
         bucket_has N b e \<or> (fst (bucket_Insert N b key val) \<and> e = (key, val))"
proof (cases "fst (bucket_Insert N b key val)")
  case False
  then show ?thesis by (simp add: bucket_Insert_unchanged)
next
  case True
  from bucket_Insert_success [OF True assms] obtain j where j: "j < N" "\<not> IsReadable b j"
    and e: "snd (bucket_Insert N b key val) =
       SetReadable (SetOccupied (b\<lparr>array := (array b)[j := (key, val)]\<rparr>) j) j"
    by blast
  have wf': "bucket_wf N (SetOccupied (b\<lparr>array := (array b)[j := (key, val)]\<rparr>) j)"
    using assms by simp
  have len: "length (array b) = N" using assms by (simp add: bucket_wf_def)
  have r: "IsReadable (snd (bucket_Insert N b key val)) i = (i = j \<or> IsReadable b i)" for i
    unfolding e by (simp add: IsReadable_SetReadable [OF wf' j(1)])
  have a: "array (snd (bucket_Insert N b key val)) ! i =
           (if i = j then (key, val) else array b ! i)" if "i < N" for i
    unfolding e using that len by (simp add: nth_list_update)
  show ?thesis
    using True j by (auto simp add: bucket_has_def r a)
qed

lemma bucket_Insert_distinct:
  assumes "bucket_wf N b" "bucket_distinct N b"
  shows "bucket_distinct N (snd (bucket_Insert N b key val))"
proof (cases "fst (bucket_Insert N b key val)")
  case False
  then show ?thesis using assms by (simp add: bucket_Insert_unchanged)
next
  case True
  from bucket_Insert_success [OF True assms(1)] obtain j where j: "j < N" "\<not> IsReadable b j"
    and e: "snd (bucket_Insert N b key val) =
       SetReadable (SetOccupied (b\<lparr>array := (array b)[j := (key, val)]\<rparr>) j) j"
    by blast
  have nh: "\<not> bucket_has N b (key, val)" using True bucket_Insert_fail_iff by blast
  have wf': "bucket_wf N (SetOccupied (b\<lparr>array := (array b)[j := (key, val)]\<rparr>) j)"
    using assms by simp
  have len: "length (array b) = N" using assms by (simp add: bucket_wf_def)
  have r: "IsReadable (snd (bucket_Insert N b key val)) i = (i = j \<or> IsReadable b i)" for i
    unfolding e by (simp add: IsReadable_SetReadable [OF wf' j(1)])
  have a: "array (snd (bucket_Insert N b key val)) ! i =
           (if i = j then (key, val) else array b ! i)" if "i < N" for i
    unfolding e using that len by (simp add: nth_list_update)
  show ?thesis
    unfolding bucket_distinct_def
  proof (intro allI impI)
    fix i k
    assume ik: "i < N" "k < N"
      and h: "IsReadable (snd (bucket_Insert N b key val)) i \<and>
              IsReadable (snd (bucket_Insert N b key val)) k \<and>
              array (snd (bucket_Insert N b key val)) ! i = array (snd (bucket_Insert N b key val)) ! k"
    show "i = k"
    proof (cases "i = j \<or> k = j")
      case True
      then show ?thesis using h ik nh j by (auto simp add: r a bucket_has_def split: if_splits)
    next
      case False
      then show ?thesis
        using h ik assms(2) by (auto simp add: r a bucket_distinct_def)
    qed
  qed
qed

lemma bucket_Insert_BK1:
  assumes "bucket_wf N b" "bucket_BK1 N b"
  shows "bucket_BK1 N (snd (bucket_Insert N b key val))"
proof (cases "fst (bucket_Insert N b key val)")
  case False
  then show ?thesis using assms by (simp add: bucket_Insert_unchanged)
next
  case True
  from bucket_Insert_success [OF True assms(1)] obtain j where j: "j < N"
    and e: "snd (bucket_Insert N b key val) =
       SetReadable (SetOccupied (b\<lparr>array := (array b)[j := (key, val)]\<rparr>) j) j"
    by blast
  have wf0: "bucket_wf N (b\<lparr>array := (array b)[j := (key, val)]\<rparr>)" using assms by simp
  have wf': "bucket_wf N (SetOccupied (b\<lparr>array := (array b)[j := (key, val)]\<rparr>) j)"
    using assms by simp
  show ?thesis
    unfolding e bucket_BK1_def
    using assms(2)
    by (auto simp add: IsReadable_SetReadable [OF wf' j] IsOccupied_SetOccupied [OF wf0 j]
        bucket_BK1_def)
qed

lemma bucket_Insert_free_slots:
  assumes "bucket_wf N b" "fst (bucket_Insert N b key val)"
  shows "\<exists>j<N. \<not> IsReadable b j \<and>
           (\<forall>i. IsReadable (snd (bucket_Insert N b key val)) i = (i = j \<or> IsReadable b i))"
proof -
  from bucket_Insert_success [OF assms(2,1)] obtain j where j: "j < N" "\<not> IsReadable b j"
    and e: "snd (bucket_Insert N b key val) =
       SetReadable (SetOccupied (b\<lparr>array := (array b)[j := (key, val)]\<rparr>) j) j"
    by blast
  have wf': "bucket_wf N (SetOccupied (b\<lparr>array := (array b)[j := (key, val)]\<rparr>) j)"
    using assms by simp
  have "IsReadable (snd (bucket_Insert N b key val)) i = (i = j \<or> IsReadable b i)" for i
    unfolding e by (simp add: IsReadable_SetReadable [OF wf' j(1)])
  then show ?thesis using j by blast
qed

lemma bucket_Remove_prefix:
  assumes "bucket_wf N b" "n \<le> N"
  shows "\<exists>pg. foldl (\<lambda>(flag, pg) curr_idx.
              if IsReadable pg curr_idx \<and> IntComparator (KeyAt pg curr_idx) key = 0
                 \<and> ValueAt pg curr_idx = val
              then (True, RemoveAt pg curr_idx) else (flag, pg))
       (False, b) [0..<n] = (bucket_has n b (key, val), pg) \<and>
     bucket_wf N pg \<and> array pg = array b \<and> occupied pg = occupied b \<and>
     (\<forall>i. IsReadable pg i = (IsReadable b i \<and> \<not> (i < n \<and> array b ! i = (key, val))))"
  (is "\<exists>pg. foldl ?step (False, b) [0..<n] = _ \<and> ?P n pg")
  using assms(2)
proof (induction n)
  case 0
  then show ?case using assms(1) by simp
next
  case (Suc n)
  then obtain pg where pre: "foldl ?step (False, b) [0..<n] = (bucket_has n b (key, val), pg)"
    and p: "?P n pg" by auto
  have n: "n < N" using Suc.prems by simp
  have unroll: "foldl ?step (False, b) [0..<Suc n] = ?step (foldl ?step (False, b) [0..<n]) n"
    by simp
  have rn: "IsReadable pg n = IsReadable b n" using p by simp
  show ?case
  proof (cases "IsReadable b n \<and> array b ! n = (key, val)")
    case True
    have wf: "bucket_wf N pg" using p by simp
    have "foldl ?step (False, b) [0..<Suc n] = (True, RemoveAt pg n)"
      using True p rn by (simp only: unroll pre) (simp add: KeyAt_def ValueAt_def)
    moreover have "bucket_has (Suc n) b (key, val)" using True by (simp add: bucket_has_Suc)
    moreover have "?P (Suc n) (RemoveAt pg n)"
      using p True by (auto simp add: IsReadable_RemoveAt [OF wf n] less_Suc_eq)
    ultimately show ?thesis by auto
  next
    case False
    have "foldl ?step (False, b) [0..<Suc n] = (bucket_has n b (key, val), pg)"
      using False p rn by (simp only: unroll pre) (auto simp add: KeyAt_def ValueAt_def prod_eq_iff)
    moreover have "bucket_has (Suc n) b (key, val) = bucket_has n b (key, val)"
      using False by (auto simp add: bucket_has_Suc)
    moreover have "?P (Suc n) pg"
      using p False by (auto simp add: less_Suc_eq)
    ultimately show ?thesis by auto
  qed
qed

lemma bucket_Remove_result:
  assumes "bucket_wf N b"
  shows "fst (bucket_Remove N b key val) = bucket_has N b (key, val)"
    and "bucket_wf N (snd (bucket_Remove N b key val))"
    and "array (snd (bucket_Remove N b key val)) = array b"
    and "occupied (snd (bucket_Remove N b key val)) = occupied b"
    and "i < N \<Longrightarrow> IsReadable (snd (bucket_Remove N b key val)) i =
           (IsReadable b i \<and> array b ! i \<noteq> (key, val))"
proof -
  from bucket_Remove_prefix [OF assms le_refl, of key val] obtain pg where
    e: "bucket_Remove N b key val = (bucket_has N b (key, val), pg)"
    and p: "bucket_wf N pg" "array pg = array b" "occupied pg = occupied b"
      "\<And>i. IsReadable pg i = (IsReadable b i \<and> \<not> (i < N \<and> array b ! i = (key, val)))"
    unfolding bucket_Remove_def by blast
  show "fst (bucket_Remove N b key val) = bucket_has N b (key, val)"
    "bucket_wf N (snd (bucket_Remove N b key val))"
    "array (snd (bucket_Remove N b key val)) = array b"
    "occupied (snd (bucket_Remove N b key val)) = occupied b"
    using p(1-3) by (simp_all add: e)
  show "i < N \<Longrightarrow> IsReadable (snd (bucket_Remove N b key val)) i =
           (IsReadable b i \<and> array b ! i \<noteq> (key, val))"
    using p(4) [of i] by (simp add: e)
qed

lemma bucket_Remove_has:
  assumes "bucket_wf N b"
  shows "bucket_has N (snd (bucket_Remove N b key val)) e \<longleftrightarrow> bucket_has N b e \<and> e \<noteq> (key, val)"
  by (auto simp add: bucket_has_def bucket_Remove_result [OF assms])

lemma bucket_Remove_distinct:
  assumes "bucket_wf N b" "bucket_distinct N b"
  shows "bucket_distinct N (snd (bucket_Remove N b key val))"
  using assms(2) by (auto simp add: bucket_distinct_def bucket_Remove_result [OF assms(1)])

lemma bucket_Remove_BK1:
  assumes "bucket_wf N b" "bucket_BK1 N b"
  shows "bucket_BK1 N (snd (bucket_Remove N b key val))"
  using assms(2)
  by (auto simp add: bucket_BK1_def bucket_Remove_result [OF assms(1)] IsOccupied_bit)

lemma bucket_Remove_unchanged:
  assumes "\<not> bucket_has N b (key, val)"
  shows "bucket_Remove N b key val = (False, b)"
proof -
  have "n \<le> N \<Longrightarrow> foldl (\<lambda>(flag, pg) curr_idx.
              if IsReadable pg curr_idx \<and> IntComparator (KeyAt pg curr_idx) key = 0
                 \<and> ValueAt pg curr_idx = val
              then (True, RemoveAt pg curr_idx) else (flag, pg))
       (False, b) [0..<n] = (False, b)" (is "_ \<Longrightarrow> foldl ?step _ _ = _") for n
  proof (induction n)
    case 0
    then show ?case by simp
  next
    case (Suc n)
    have pre: "foldl ?step (False, b) [0..<n] = (False, b)" using Suc by simp
    have unroll: "foldl ?step (False, b) [0..<Suc n] = ?step (foldl ?step (False, b) [0..<n]) n"
      by simp
    have "\<not> (IsReadable b n \<and> array b ! n = (key, val))"
      using assms Suc.prems by (auto simp add: bucket_has_def)
    then have "?step (False, b) n = (False, b)"
      by (auto simp add: KeyAt_def ValueAt_def prod_eq_iff)
    then show ?case by (simp only: unroll pre)
  qed
  then show ?thesis by (simp add: bucket_Remove_def)
qed

lemma bucket_GetValue_prefix:
  "foldl (\<lambda>(flag, res) curr_idx.
              if IsReadable b curr_idx \<and> IntComparator (KeyAt b curr_idx) key = 0
              then (True, res @ [ValueAt b curr_idx]) else (flag, res))
       (False, result) [0..<n] =
   ((\<exists>i<n. IsReadable b i \<and> KeyAt b i = key),
    result @ map (ValueAt b) (filter (\<lambda>i. IsReadable b i \<and> KeyAt b i = key) [0..<n]))"
proof (induction n)
  case 0
  then show ?case by simp
next
  case (Suc n)
  have "(\<exists>i<Suc n. IsReadable b i \<and> KeyAt b i = key) \<longleftrightarrow>
        (\<exists>i<n. IsReadable b i \<and> KeyAt b i = key) \<or> (IsReadable b n \<and> KeyAt b n = key)"
    by (auto simp add: less_Suc_eq)
  then show ?case using Suc by auto
qed

lemma bucket_GetValue_eq:
  "bucket_GetValue N b key result =
   ((\<exists>i<N. IsReadable b i \<and> KeyAt b i = key),
    result @ map (ValueAt b) (filter (\<lambda>i. IsReadable b i \<and> KeyAt b i = key) [0..<N]))"
  by (simp only: bucket_GetValue_def bucket_GetValue_prefix)

lemma bucket_GetValue_set:
  "v \<in> set (snd (bucket_GetValue N b key [])) \<longleftrightarrow> bucket_has N b (key, v)"
  by (auto simp add: bucket_GetValue_eq bucket_has_def KeyAt_def ValueAt_def prod_eq_iff)

lemma bucket_GetValue_distinct:
  assumes "bucket_distinct N b"
  shows "distinct (snd (bucket_GetValue N b key []))"
proof -
  have "inj_on (ValueAt b) (set (filter (\<lambda>i. IsReadable b i \<and> KeyAt b i = key) [0..<N]))"
    using assms
    by (auto simp add: inj_on_def bucket_distinct_def KeyAt_def ValueAt_def prod_eq_iff)
  then show ?thesis by (simp add: bucket_GetValue_eq distinct_map)
qed

lemma distinct_count_list_one: "distinct xs \<Longrightarrow> x \<in> set xs \<Longrightarrow> count_list xs x = 1"
  by (induction xs) auto

lemma bucket_GetValue_count:
  assumes "bucket_distinct N b"
  shows "count_list (snd (bucket_GetValue N b key [])) v = (if bucket_has N b (key, v) then 1 else 0)"
proof -
  have d: "distinct (snd (bucket_GetValue N b key []))"
    using assms by (rule bucket_GetValue_distinct)
  show ?thesis
  proof (cases "bucket_has N b (key, v)")
    case True
    then have "v \<in> set (snd (bucket_GetValue N b key []))" by (simp add: bucket_GetValue_set)
    then show ?thesis using d True by (simp add: distinct_count_list_one)
  next
    case False
    then have "v \<notin> set (snd (bucket_GetValue N b key []))" by (simp add: bucket_GetValue_set)
    then show ?thesis using False by (simp add: count_list_0_iff)
  qed
qed

section \<open>Directory page\<close>

text \<open>
  Modelled from the spec: the class \<open>HashTableDirectoryPage\<close>, which the index calls but
  whose source file is not among the sources at hand. A directory page holds its own page id,
  the global depth, and one local depth and one bucket page id per slot; the live slots are
  the first \<open>2 ^ global_depth\<close>. The accessors read and write one field or one slot and
  check nothing; in particular \<open>IncrGlobalDepth\<close> adds one to the global depth whatever it
  is. The two arrays are functions on all slot numbers, so a write to any slot is kept.
  \<open>GetSplitImageIndex\<close> flips the highest bit of the slot's local depth, and \<open>CanShrink\<close>
  holds when every live slot has a local depth below the global depth.
\<close>

record HashTableDirectoryPage =
  dir_page_id :: page_id_t
  global_depth :: nat
  local_depths :: "nat \<Rightarrow> nat"
  bucket_page_ids :: "nat \<Rightarrow> page_id_t"

definition GetGlobalDepth :: "HashTableDirectoryPage \<Rightarrow> nat" where
  "GetGlobalDepth d = global_depth d"

definition GetGlobalDepthMask :: "HashTableDirectoryPage \<Rightarrow> nat" where
  "GetGlobalDepthMask d = push_bit (global_depth d) 1 - 1"

definition IncrGlobalDepth :: "HashTableDirectoryPage \<Rightarrow> HashTableDirectoryPage" where
  "IncrGlobalDepth d = d\<lparr>global_depth := global_depth d + 1\<rparr>"

definition DecrGlobalDepth :: "HashTableDirectoryPage \<Rightarrow> HashTableDirectoryPage" where
  "DecrGlobalDepth d = d\<lparr>global_depth := global_depth d - 1\<rparr>"

definition Size_dir :: "HashTableDirectoryPage \<Rightarrow> nat" where
  "Size_dir d = push_bit (global_depth d) 1"

definition GetBucketPageId :: "HashTableDirectoryPage \<Rightarrow> nat \<Rightarrow> page_id_t" where
  "GetBucketPageId d bucket_idx = bucket_page_ids d bucket_idx"

definition SetBucketPageId :: "HashTableDirectoryPage \<Rightarrow> nat \<Rightarrow> page_id_t \<Rightarrow> HashTableDirectoryPage" where
  "SetBucketPageId d bucket_idx bucket_page_id =
     d\<lparr>bucket_page_ids := (bucket_page_ids d)(bucket_idx := bucket_page_id)\<rparr>"

definition GetLocalDepth :: "HashTableDirectoryPage \<Rightarrow> nat \<Rightarrow> nat" where
  "GetLocalDepth d bucket_idx = local_depths d bucket_idx"

definition SetLocalDepth :: "HashTableDirectoryPage \<Rightarrow> nat \<Rightarrow> nat \<Rightarrow> HashTableDirectoryPage" where
  "SetLocalDepth d bucket_idx local_depth =
     d\<lparr>local_depths := (local_depths d)(bucket_idx := local_depth)\<rparr>"

definition IncrLocalDepth :: "HashTableDirectoryPage \<Rightarrow> nat \<Rightarrow> HashTableDirectoryPage" where
  "IncrLocalDepth d bucket_idx =
     d\<lparr>local_depths := (local_depths d)(bucket_idx := local_depths d bucket_idx + 1)\<rparr>"

definition DecrLocalDepth :: "HashTableDirectoryPage \<Rightarrow> nat \<Rightarrow> HashTableDirectoryPage" where
  "DecrLocalDepth d bucket_idx =
     d\<lparr>local_depths := (local_depths d)(bucket_idx := local_depths d bucket_idx - 1)\<rparr>"

definition GetLocalDepthMask :: "HashTableDirectoryPage \<Rightarrow> nat \<Rightarrow> nat" where
  "GetLocalDepthMask d bucket_idx = push_bit (local_depths d bucket_idx) 1 - 1"

definition GetSplitImageIndex :: "HashTableDirectoryPage \<Rightarrow> nat \<Rightarrow> nat" where
  "GetSplitImageIndex d bucket_idx = bucket_idx XOR push_bit (local_depths d bucket_idx - 1) 1"

definition CanShrink :: "HashTableDirectoryPage \<Rightarrow> bool" where
  "CanShrink d \<longleftrightarrow> list_all (\<lambda>i. local_depths d i < global_depth d) [0..<Size_dir d]"

section \<open>Extendible hash table (src/container/hash/extendible_hash_table.cpp)\<close>

text \<open>
  The model follows the instantiation \<open>ExtendibleHashTable<int, int, IntComparator>\<close>, with
  the hash function as the parameter \<open>H\<close> and the bucket capacity as the parameter \<open>N\<close>.
  The state of the index is its directory page, its bucket pages by page id, and for every
  page id the pin count and the dirty flag the buffer pool keeps for it. The index reaches
  its pages only through \<open>FetchPage\<close>, \<open>NewPage\<close>, \<open>UnpinPage\<close> and \<open>DeletePage\<close> of the
  buffer pool; here these act on a pool that always has a frame to give: \<open>FetchPage\<close> adds
  one to the pin count, \<open>UnpinPage\<close> takes one away and ors the dirty flag, \<open>NewPage\<close>
  hands out the next page id with a zeroed page pinned once, \<open>DeletePage\<close> refuses a pinned
  page. Every \<open>assert\<close> of the source is a branch that ends the operation with a
  \<open>fault\<close>: \<open>ReadableAssert\<close> for \<open>assert(IsReadable(i))\<close> in the redistribution loops,
  \<open>InsertAssert\<close> for the asserted insert after a split at full depth, \<open>DirectoryAssert\<close>
  for the assertions on the directory, \<open>UnpinAssert\<close> for an asserted \<open>UnpinPage\<close> or
  \<open>DeletePage\<close>, and \<open>BadPage\<close> for a bucket page id that names no page.
\<close>

datatype fault = ReadableAssert | InsertAssert | DirectoryAssert | UnpinAssert | BadPage

record ExtendibleHashTable =
  directory_page_id :: page_id_t
  dir_page :: HashTableDirectoryPage
  bucket_pages :: "page_id_t \<rightharpoonup> HashTableBucketPage"
  pins :: "page_id_t \<Rightarrow> int"
  dirty :: "page_id_t \<Rightarrow> bool"
  next_page_id :: page_id_t

definition FetchPage :: "ExtendibleHashTable \<Rightarrow> page_id_t \<Rightarrow> ExtendibleHashTable" where
  "FetchPage s p = s\<lparr>pins := (pins s)(p := pins s p + 1)\<rparr>"

definition FetchDirectoryPage :: "ExtendibleHashTable \<Rightarrow> HashTableDirectoryPage \<times> ExtendibleHashTable" where
  "FetchDirectoryPage s = (dir_page s, FetchPage s (directory_page_id s))"

definition FetchBucketPage ::
  "ExtendibleHashTable \<Rightarrow> page_id_t \<Rightarrow> fault + HashTableBucketPage \<times> ExtendibleHashTable" where
  "FetchBucketPage s bucket_page_id =
     (case bucket_pages s bucket_page_id of
        None \<Rightarrow> Inl BadPage
      | Some b \<Rightarrow> Inr (b, FetchPage s bucket_page_id))"

definition UnpinPage :: "ExtendibleHashTable \<Rightarrow> page_id_t \<Rightarrow> bool \<Rightarrow> bool \<times> ExtendibleHashTable" where
  "UnpinPage s p d =
     (if p = directory_page_id s \<or> bucket_pages s p \<noteq> None
      then (True, s\<lparr>pins := (pins s)(p := pins s p - 1), dirty := (dirty s)(p := d \<or> dirty s p)\<rparr>)
      else (False, s))"

definition NewPage :: "nat \<Rightarrow> ExtendibleHashTable \<Rightarrow> page_id_t \<times> HashTableBucketPage \<times> ExtendibleHashTable" where
  "NewPage N s =
     (next_page_id s, zero_page N,
      s\<lparr>bucket_pages := (bucket_pages s)(next_page_id s \<mapsto> zero_page N),
        pins := (pins s)(next_page_id s := 1),
        dirty := (dirty s)(next_page_id s := False),
        next_page_id := next_page_id s + 1\<rparr>)"

definition DeletePage :: "ExtendibleHashTable \<Rightarrow> page_id_t \<Rightarrow> bool \<times> ExtendibleHashTable" where
  "DeletePage s p =
     (case bucket_pages s p of
        None \<Rightarrow> (True, s)
      | Some b \<Rightarrow>
          if pins s p \<noteq> 0 then (False, s)
          else (True, s\<lparr>bucket_pages := (bucket_pages s)(p := None), dirty := (dirty s)(p := False)\<rparr>))"

definition put_bucket :: "ExtendibleHashTable \<Rightarrow> page_id_t \<Rightarrow> HashTableBucketPage \<Rightarrow> ExtendibleHashTable" where
  "put_bucket s p b = s\<lparr>bucket_pages := (bucket_pages s)(p \<mapsto> b)\<rparr>"

definition put_dir :: "ExtendibleHashTable \<Rightarrow> HashTableDirectoryPage \<Rightarrow> ExtendibleHashTable" where
  "put_dir s d = s\<lparr>dir_page := d\<rparr>"

definition Hash :: "(KeyType \<Rightarrow> 64 word) \<Rightarrow> KeyType \<Rightarrow> nat" where
  "Hash H key = unat (ucast (H key) :: 32 word)"

definition KeyToDirectoryIndex :: "(KeyType \<Rightarrow> 64 word) \<Rightarrow> KeyType \<Rightarrow> HashTableDirectoryPage \<Rightarrow> nat" where
  "KeyToDirectoryIndex H key d = Hash H key AND GetGlobalDepthMask d"

definition KeyToPageId :: "(KeyType \<Rightarrow> 64 word) \<Rightarrow> KeyType \<Rightarrow> HashTableDirectoryPage \<Rightarrow> page_id_t" where
  "KeyToPageId H key d = GetBucketPageId d (KeyToDirectoryIndex H key d)"

definition ExtendibleHashTable_new :: "nat \<Rightarrow> ExtendibleHashTable" where
  "ExtendibleHashTable_new N =
     \<lparr>directory_page_id = 0,
      dir_page = \<lparr>dir_page_id = 0, global_depth = 0, local_depths = (\<lambda>_. 0),
                  bucket_page_ids = (\<lambda>_. 0)(0 := 1)\<rparr>,
      bucket_pages = [1 \<mapsto> zero_page N],
      pins = (\<lambda>_. 0),
      dirty = (\<lambda>_. False)(1 := True, 0 := True),
      next_page_id = 2\<rparr>"

definition GetValue ::
  "nat \<Rightarrow> (KeyType \<Rightarrow> 64 word) \<Rightarrow> ExtendibleHashTable \<Rightarrow> KeyType \<Rightarrow> ValueType list
     \<Rightarrow> fault + bool \<times> ValueType list \<times> ExtendibleHashTable" where
  "GetValue N H s key result =
     (case FetchDirectoryPage s of (dir, s1) \<Rightarrow>
      let bucket_page_id = KeyToPageId H key dir in
      case FetchBucketPage s1 bucket_page_id of
        Inl e \<Rightarrow> Inl e
      | Inr (bucket_page, s2) \<Rightarrow>
          (case bucket_GetValue N bucket_page key result of (flag, result') \<Rightarrow>
             let s3 = snd (UnpinPage s2 (directory_page_id s2) False);
                 s4 = snd (UnpinPage s3 bucket_page_id False)
             in Inr (flag, result', s4)))"

definition split_scan ::
  "nat \<Rightarrow> HashTableBucketPage \<Rightarrow> KeyType \<Rightarrow> ValueType \<Rightarrow> nat \<Rightarrow> nat \<times> bool" where
  "split_scan N b key val n =
     foldl (\<lambda>(free_pos, is_duplicate) i.
              if is_duplicate then (free_pos, is_duplicate)
              else (if free_pos = N \<and> (\<not> IsOccupied b i \<or> \<not> IsReadable b i) then i else free_pos,
                    IsReadable b i \<and> IntComparator (KeyAt b i) key = 0 \<and> ValueAt b i = val))
       (N, False) [0..<n]"

text \<open>
  The loop of \<open>SplitInsert\<close> that doubles the directory copies the bucket page id and the
  local depth of every live slot \<open>index\<close> to the slot \<open>index | (1 << global_depth)\<close>, and
  then increments the global depth. It compares the global depth with nothing.
\<close>

definition grow_directory :: "HashTableDirectoryPage \<Rightarrow> HashTableDirectoryPage" where
  "grow_directory d =
     IncrGlobalDepth
       (foldl (\<lambda>dp index.
                 let mask = push_bit (GetGlobalDepth dp) 1 in
                 SetLocalDepth
                   (SetBucketPageId dp (index OR mask) (GetBucketPageId dp index))
                   (index OR mask) (GetLocalDepth dp index))
          d [0..<Size_dir d])"

definition redistribute ::
  "nat \<Rightarrow> (KeyType \<Rightarrow> bool) \<Rightarrow> HashTableBucketPage \<Rightarrow> HashTableBucketPage
     \<Rightarrow> fault + HashTableBucketPage \<times> HashTableBucketPage \<times> bool" where
  "redistribute N moves old_bucket_page new_bucket_page =
     foldl (\<lambda>acc i.
              case acc of
                Inl e \<Rightarrow> Inl e
              | Inr (old_pg, new_pg, is_free) \<Rightarrow>
                  if \<not> IsReadable old_pg i then Inl ReadableAssert
                  else
                    let cur_key = KeyAt old_pg i in
                    if moves cur_key
                    then Inr (RemoveAt old_pg i,
                              snd (bucket_Insert N new_pg cur_key (ValueAt old_pg i)), True)
                    else Inr (old_pg, new_pg, is_free))
       (Inr (old_bucket_page, new_bucket_page, False)) [0..<N]"

definition fan_out ::
  "HashTableDirectoryPage \<Rightarrow> nat \<Rightarrow> nat \<Rightarrow> nat \<Rightarrow> page_id_t \<Rightarrow> page_id_t
     \<Rightarrow> fault + HashTableDirectoryPage" where
  "fan_out d index new_index local_depth old_bucket_page_id new_bucket_page_id =
     (let mask = GetLocalDepthMask d index in
      foldl (\<lambda>acc i.
               case acc of
                 Inl e \<Rightarrow> Inl e
               | Inr dp \<Rightarrow>
                   if GetBucketPageId dp i = old_bucket_page_id then
                     if \<not> (i = index \<or> i = new_index \<or> GetLocalDepth dp i = local_depth)
                     then Inl DirectoryAssert
                     else Inr (SetBucketPageId (SetLocalDepth dp i (local_depth + 1)) i
                                 (if (i AND mask) = (index AND mask)
                                  then old_bucket_page_id else new_bucket_page_id))
                   else Inr dp)
        (Inr d) [0..<Size_dir d])"

datatype split_result = Returned bool ExtendibleHashTable | Retry ExtendibleHashTable

definition split_finish ::
  "ExtendibleHashTable \<Rightarrow> HashTableDirectoryPage \<Rightarrow> page_id_t \<Rightarrow> HashTableBucketPage \<Rightarrow> bool
     \<Rightarrow> page_id_t \<Rightarrow> HashTableBucketPage \<Rightarrow> bool \<Rightarrow> bool \<Rightarrow> split_result" where
  "split_finish s d old_bucket_page_id old_pg old_dirty new_bucket_page_id new_pg new_dirty ret =
     (let s1 = put_dir (put_bucket (put_bucket s old_bucket_page_id old_pg) new_bucket_page_id new_pg) d;
          s2 = snd (UnpinPage s1 old_bucket_page_id old_dirty);
          s3 = snd (UnpinPage s2 new_bucket_page_id new_dirty);
          s4 = snd (UnpinPage s3 (directory_page_id s3) True)
      in if \<not> ret then Retry s4 else Returned True s4)"

definition split_grow ::
  "nat \<Rightarrow> (KeyType \<Rightarrow> 64 word) \<Rightarrow> ExtendibleHashTable \<Rightarrow> HashTableDirectoryPage \<Rightarrow> nat
     \<Rightarrow> page_id_t \<Rightarrow> HashTableBucketPage \<Rightarrow> KeyType \<Rightarrow> ValueType \<Rightarrow> fault + split_result" where
  "split_grow N H s d index old_bucket_page_id old_bucket_page key val =
     (let new_index = index OR push_bit (GetGlobalDepth d) 1;
          d1 = grow_directory d
      in
          if GetBucketPageId d1 index \<noteq> GetBucketPageId d1 new_index then Inl DirectoryAssert
          else
            (case NewPage N s of (new_bucket_page_id, new_bucket_page, s1) \<Rightarrow>
             case redistribute N (\<lambda>cur_key. KeyToDirectoryIndex H cur_key d1 = new_index)
                    old_bucket_page new_bucket_page of
               Inl e \<Rightarrow> Inl e
             | Inr (old_pg, new_pg, is_free) \<Rightarrow>
                 let d2 = SetBucketPageId d1 new_index new_bucket_page_id;
                     d3 = SetLocalDepth d2 new_index (GetGlobalDepth d2);
                     d4 = SetLocalDepth d3 index (GetGlobalDepth d3);
                     key_index = KeyToDirectoryIndex H key d4
                 in
                 if key_index = index \<and> is_free then
                   (case bucket_Insert N old_pg key val of (test, old_pg') \<Rightarrow>
                      if \<not> test then Inl InsertAssert
                      else Inr (split_finish s1 d4 old_bucket_page_id old_pg' is_free
                                  new_bucket_page_id new_pg (is_free \<or> key_index = new_index) True))
                 else if key_index = new_index then
                   (case bucket_Insert N new_pg key val of (test, new_pg') \<Rightarrow>
                      if \<not> test then Inl InsertAssert
                      else Inr (split_finish s1 d4 old_bucket_page_id old_pg is_free
                                  new_bucket_page_id new_pg' (is_free \<or> key_index = new_index) True))
                 else Inr (split_finish s1 d4 old_bucket_page_id old_pg is_free
                             new_bucket_page_id new_pg (is_free \<or> key_index = new_index) False)))"

definition split_local ::
  "nat \<Rightarrow> (KeyType \<Rightarrow> 64 word) \<Rightarrow> ExtendibleHashTable \<Rightarrow> HashTableDirectoryPage \<Rightarrow> nat
     \<Rightarrow> page_id_t \<Rightarrow> HashTableBucketPage \<Rightarrow> KeyType \<Rightarrow> ValueType \<Rightarrow> fault + split_result" where
  "split_local N H s d index old_bucket_page_id old_bucket_page key val =
     (let local_depth = GetLocalDepth d index;
          new_index = push_bit (GetLocalDepth d index) 1 XOR index
      in
      if \<not> local_depth < GetGlobalDepth d then Inl DirectoryAssert
      else
        (case NewPage N s of (new_bucket_page_id, new_bucket_page, s1) \<Rightarrow>
         if GetLocalDepth d new_index \<noteq> local_depth then Inl DirectoryAssert
         else
           let d1 = SetBucketPageId d new_index new_bucket_page_id;
               d2 = IncrLocalDepth d1 index;
               d3 = IncrLocalDepth d2 new_index;
               mask = GetLocalDepthMask d3 index
           in
           case redistribute N (\<lambda>cur_key. (mask AND Hash H cur_key) = (new_index AND mask))
                  old_bucket_page new_bucket_page of
             Inl e \<Rightarrow> Inl e
           | Inr (old_pg, new_pg, is_free) \<Rightarrow>
               (case fan_out d3 index new_index local_depth old_bucket_page_id new_bucket_page_id of
                  Inl e \<Rightarrow> Inl e
                | Inr d4 \<Rightarrow>
                    if is_free then
                      (case bucket_Insert N old_pg key val of (test, old_pg') \<Rightarrow>
                         if \<not> test then Inl InsertAssert
                         else Inr (split_finish s1 d4 old_bucket_page_id old_pg' is_free
                                     new_bucket_page_id new_pg is_free True))
                    else Inr (split_finish s1 d4 old_bucket_page_id old_pg is_free
                                new_bucket_page_id new_pg is_free False))))"

definition SplitInsert_once ::
  "nat \<Rightarrow> (KeyType \<Rightarrow> 64 word) \<Rightarrow> ExtendibleHashTable \<Rightarrow> KeyType \<Rightarrow> ValueType
     \<Rightarrow> fault + split_result" where
  "SplitInsert_once N H s key val =
     (case FetchDirectoryPage s of (d, s1) \<Rightarrow>
      let index = KeyToDirectoryIndex H key d;
          old_bucket_page_id = GetBucketPageId d index
      in
      case FetchBucketPage s1 old_bucket_page_id of
        Inl e \<Rightarrow> Inl e
      | Inr (old_bucket_page, s2) \<Rightarrow>
          (case split_scan N old_bucket_page key val N of (free_pos, is_duplicate) \<Rightarrow>
             if is_duplicate then
               let s3 = snd (UnpinPage s2 (directory_page_id s2) False);
                   s4 = snd (UnpinPage s3 old_bucket_page_id False)
               in Inr (Returned False s4)
             else if free_pos \<noteq> N then
               let s3 = put_bucket s2 old_bucket_page_id (snd (bucket_Insert N old_bucket_page key val));
                   s4 = snd (UnpinPage s3 (directory_page_id s3) False);
                   s5 = snd (UnpinPage s4 old_bucket_page_id True)
               in Inr (Returned True s5)
             else if GetLocalDepth d index = GetGlobalDepth d then
               split_grow N H s2 d index old_bucket_page_id old_bucket_page key val
             else
               split_local N H s2 d index old_bucket_page_id old_bucket_page key val))"

section \<open>Remove and Merge\<close>

definition merge_rewrite ::
  "HashTableDirectoryPage \<Rightarrow> page_id_t \<Rightarrow> page_id_t \<Rightarrow> HashTableDirectoryPage" where
  "merge_rewrite d bucket_page_id merge_page_id =
     foldl (\<lambda>dp i.
              let curr_bucket_page_id = GetBucketPageId dp i in
              if curr_bucket_page_id = bucket_page_id \<or> curr_bucket_page_id = merge_page_id
              then DecrLocalDepth (SetBucketPageId dp i merge_page_id) i
              else dp)
       d [0..<Size_dir d]"

definition Merge_iter ::
  "nat \<Rightarrow> ExtendibleHashTable \<Rightarrow> nat \<Rightarrow> fault + ExtendibleHashTable \<times> nat option" where
  "Merge_iter N s bucket_index =
     (let d = dir_page s;
          bucket_page_id = GetBucketPageId d bucket_index;
          bucket_local_depth = GetLocalDepth d bucket_index
      in
      case FetchBucketPage s bucket_page_id of
        Inl e \<Rightarrow> Inl e
      | Inr (bucket_page, s1) \<Rightarrow>
          let merge_index = GetSplitImageIndex d bucket_index;
              merge_page_id = GetBucketPageId d merge_index;
              merge_local_depth = GetLocalDepth d merge_index;
              is_shrink = (0 < bucket_local_depth \<and> IsEmpty N bucket_page
                           \<and> bucket_local_depth = merge_local_depth);
              d1 = (if is_shrink then merge_rewrite d bucket_page_id merge_page_id else d);
              s2 = snd (UnpinPage (put_dir s1 d1) bucket_page_id False)
          in
          if is_shrink then
            let s3 = snd (DeletePage s2 bucket_page_id) in
            if CanShrink d1 then
              let d2 = DecrGlobalDepth d1
              in Inr (put_dir s3 d2, Some (merge_index AND GetGlobalDepthMask d2))
            else Inr (s3, Some merge_index)
          else Inr (s2, None))"

text \<open>
  The \<open>while (true)\<close> loop of \<open>Merge\<close>: \<open>Merge_iter\<close> is one pass, which either breaks
  or goes on from the slot of the merged bucket. Further down the loop is shown to end on
  every state that satisfies the directory invariant.
\<close>

partial_function (option) Merge_loop ::
  "nat \<Rightarrow> ExtendibleHashTable \<Rightarrow> nat \<Rightarrow> bool \<Rightarrow> (fault + ExtendibleHashTable \<times> bool) option" where
  "Merge_loop N s bucket_index dirty_flag =
     (case Merge_iter N s bucket_index of
        Inl e \<Rightarrow> Some (Inl e)
      | Inr (s', None) \<Rightarrow> Some (Inr (s', dirty_flag))
      | Inr (s', Some next_index) \<Rightarrow> Merge_loop N s' next_index True)"

declare Merge_loop.simps [code]

definition Merge ::
  "nat \<Rightarrow> (KeyType \<Rightarrow> 64 word) \<Rightarrow> ExtendibleHashTable \<Rightarrow> KeyType \<Rightarrow> ValueType
     \<Rightarrow> (fault + ExtendibleHashTable) option" where
  "Merge N H s key val =
     (case FetchDirectoryPage s of (d, s1) \<Rightarrow>
      case Merge_loop N s1 (KeyToDirectoryIndex H key d) False of
        None \<Rightarrow> None
      | Some (Inl e) \<Rightarrow> Some (Inl e)
      | Some (Inr (s2, dirty_flag)) \<Rightarrow>
          Some (Inr (snd (UnpinPage s2 (dir_page_id (dir_page s2)) dirty_flag))))"

definition Remove ::
  "nat \<Rightarrow> (KeyType \<Rightarrow> 64 word) \<Rightarrow> ExtendibleHashTable \<Rightarrow> KeyType \<Rightarrow> ValueType
     \<Rightarrow> (fault + bool \<times> ExtendibleHashTable) option" where
  "Remove N H s key val =
     (case FetchDirectoryPage s of (d, s1) \<Rightarrow>
      case FetchBucketPage s1 (KeyToPageId H key d) of
        Inl e \<Rightarrow> Some (Inl e)
      | Inr (bucket_page, s2) \<Rightarrow>
          (case bucket_Remove N bucket_page key val of (flag, pg) \<Rightarrow>
             let s3 = put_bucket s2 (KeyToPageId H key d) pg;
                 s4 = snd (UnpinPage s3 (dir_page_id d) False);
                 s5 = snd (UnpinPage s4 (KeyToPageId H key d) flag)
             in if flag then
                  (case Merge N H s5 key val of
                     None \<Rightarrow> None
                   | Some (Inl e) \<Rightarrow> Some (Inl e)
                   | Some (Inr s6) \<Rightarrow> Some (Inr (flag, s6)))
                else Some (Inr (flag, s5))))"

section \<open>GetGlobalDepth and VerifyIntegrity\<close>

definition dir_VerifyIntegrity :: "HashTableDirectoryPage \<Rightarrow> bool" where
  "dir_VerifyIntegrity d \<longleftrightarrow>
     list_all (\<lambda>i. local_depths d i \<le> global_depth d) [0..<Size_dir d] \<and>
     list_all (\<lambda>i. list_all (\<lambda>j. bucket_page_ids d i = bucket_page_ids d j \<longrightarrow>
                                   local_depths d i = local_depths d j) [0..<Size_dir d])
       [0..<Size_dir d] \<and>
     list_all (\<lambda>i. length (filter (\<lambda>j. bucket_page_ids d j = bucket_page_ids d i) [0..<Size_dir d])
                    = 2 ^ (global_depth d - local_depths d i)) [0..<Size_dir d]"

definition ExtendibleHashTable_GetGlobalDepth ::
  "ExtendibleHashTable \<Rightarrow> fault + nat \<times> ExtendibleHashTable" where
  "ExtendibleHashTable_GetGlobalDepth s =
     (case FetchDirectoryPage s of (d, s1) \<Rightarrow>
      let global_depth = GetGlobalDepth d in
      case UnpinPage s1 (directory_page_id s1) False of
        (ok, s2) \<Rightarrow> if \<not> ok then Inl UnpinAssert else Inr (global_depth, s2))"

definition VerifyIntegrity :: "ExtendibleHashTable \<Rightarrow> fault + ExtendibleHashTable" where
  "VerifyIntegrity s =
     (case FetchDirectoryPage s of (d, s1) \<Rightarrow>
      if \<not> dir_VerifyIntegrity d then Inl DirectoryAssert
      else
        case UnpinPage s1 (directory_page_id s1) False of
          (ok, s2) \<Rightarrow> if \<not> ok then Inl UnpinAssert else Inr s2)"

subsection \<open>Masks, split images and congruence classes of directory indices\<close>

lemma nat_and_low_mask: "(x::nat) AND (push_bit n 1 - 1) = take_bit n x"
  by (simp add: take_bit_eq_mask mask_eq_exp_minus_1)

lemma bit_nat_less_exp: "(i::nat) < 2 ^ G \<Longrightarrow> bit i n \<Longrightarrow> n < G"
proof -
  assume "i < 2 ^ G" "bit i n"
  then have "bit (take_bit G i) n" by (simp add: take_bit_nat_eq_self)
  then show ?thesis by (simp add: bit_take_bit_iff)
qed

lemma nat_or_exp: "(i::nat) < 2 ^ G \<Longrightarrow> i OR push_bit G 1 = i + 2 ^ G"
proof -
  assume a: "i < 2 ^ G"
  have "i + 2 ^ G = i OR 2 ^ G"
    by (rule disjunctive_add) (use a in \<open>auto simp: bit_exp_iff dest: bit_nat_less_exp\<close>)
  then show ?thesis by simp
qed



lemma take_bit_Suc_xor_exp_neq: "take_bit (Suc L) (push_bit L 1 XOR (i::nat)) \<noteq> take_bit (Suc L) i"
proof
  assume "take_bit (Suc L) (push_bit L 1 XOR i) = take_bit (Suc L) i"
  then have "bit (take_bit (Suc L) (push_bit L 1 XOR i)) L = bit (take_bit (Suc L) i) L" by simp
  then show False by (simp add: bit_simps)
qed



subsection \<open>The directory loops, slot by slot\<close>

lemma Size_dir_eq: "Size_dir d = 2 ^ global_depth d"
  by (simp add: Size_dir_def)

definition grown :: "HashTableDirectoryPage \<Rightarrow> nat \<Rightarrow> HashTableDirectoryPage" where
  "grown d n =
     d\<lparr>local_depths := (\<lambda>j. if 2 ^ global_depth d \<le> j \<and> j < 2 ^ global_depth d + n
                              then local_depths d (j - 2 ^ global_depth d) else local_depths d j),
       bucket_page_ids := (\<lambda>j. if 2 ^ global_depth d \<le> j \<and> j < 2 ^ global_depth d + n
                              then bucket_page_ids d (j - 2 ^ global_depth d)
                              else bucket_page_ids d j)\<rparr>"

lemma grown_0: "grown d 0 = d"
  by (rule HashTableDirectoryPage.equality) (auto simp: grown_def)

lemma grow_loop:
  "n \<le> 2 ^ global_depth d \<Longrightarrow>
     foldl (\<lambda>dp index.
              let mask = push_bit (GetGlobalDepth dp) 1 in
              SetLocalDepth
                (SetBucketPageId dp (index OR mask) (GetBucketPageId dp index))
                (index OR mask) (GetLocalDepth dp index))
        d [0..<n] = grown d n"
  (is "_ \<Longrightarrow> foldl ?step d [0..<n] = _")
proof (induction n)
  case 0
  then show ?case by (simp add: grown_0)
next
  case (Suc n)
  let ?G = "global_depth d"
  have n: "n < 2 ^ ?G" using Suc.prems by simp
  have e: "n OR push_bit ?G 1 = n + 2 ^ ?G" using n by (rule nat_or_exp)
  have g: "GetGlobalDepth (grown d n) = ?G" by (simp add: GetGlobalDepth_def grown_def)
  have step: "SetLocalDepth
         (SetBucketPageId (grown d n) (n + 2 ^ ?G) (GetBucketPageId (grown d n) n))
         (n + 2 ^ ?G) (GetLocalDepth (grown d n) n) = grown d (Suc n)"
    using n
    by (auto simp add: SetLocalDepth_def SetBucketPageId_def GetBucketPageId_def
        GetLocalDepth_def grown_def fun_eq_iff
        intro!: HashTableDirectoryPage.equality)
  have "foldl ?step d [0..<Suc n] = ?step (foldl ?step d [0..<n]) n" by simp
  also have "\<dots> = ?step (grown d n) n" using Suc.IH Suc.prems by simp
  also have "\<dots> = grown d (Suc n)" by (simp only: Let_def g e step)
  finally show ?case .
qed

lemma grow_directory_eq:
  "grow_directory d = IncrGlobalDepth (grown d (2 ^ global_depth d))"
  by (simp only: grow_directory_def Size_dir_eq grow_loop [OF le_refl])

definition fanned ::
  "HashTableDirectoryPage \<Rightarrow> nat \<Rightarrow> nat \<Rightarrow> page_id_t \<Rightarrow> page_id_t \<Rightarrow> nat \<Rightarrow> nat
     \<Rightarrow> HashTableDirectoryPage" where
  "fanned d msk index old_id new_id local_depth n =
     d\<lparr>local_depths := (\<lambda>j. if j < n \<and> bucket_page_ids d j = old_id
                              then local_depth + 1 else local_depths d j),
       bucket_page_ids := (\<lambda>j. if j < n \<and> bucket_page_ids d j = old_id
                              then (if (j AND msk) = (index AND msk) then old_id else new_id)
                              else bucket_page_ids d j)\<rparr>"

lemma fanned_0: "fanned d msk index old_id new_id local_depth 0 = d"
  by (rule HashTableDirectoryPage.equality) (auto simp: fanned_def)

lemma fanned_fields:
  "global_depth (fanned d msk index old_id new_id local_depth n) = global_depth d"
  "dir_page_id (fanned d msk index old_id new_id local_depth n) = dir_page_id d"
  by (simp_all add: fanned_def)

lemma fan_loop:
  "foldl (\<lambda>acc i.
            case acc of
              Inl e \<Rightarrow> Inl e
            | Inr dp \<Rightarrow>
                if GetBucketPageId dp i = old_id then
                  if \<not> (i = index \<or> i = new_index \<or> GetLocalDepth dp i = local_depth)
                  then Inl DirectoryAssert
                  else Inr (SetBucketPageId (SetLocalDepth dp i (local_depth + 1)) i
                              (if (i AND msk) = (index AND msk) then old_id else new_id))
                else Inr dp)
     (Inr d) [0..<n] =
   (if \<forall>j<n. bucket_page_ids d j = old_id \<longrightarrow>
         (j = index \<or> j = new_index \<or> local_depths d j = local_depth)
    then Inr (fanned d msk index old_id new_id local_depth n) else Inl DirectoryAssert)"
  (is "foldl ?step (Inr d) [0..<n] = ?rhs n")
proof (induction n)
  case 0
  then show ?case by (simp add: fanned_0)
next
  case (Suc n)
  let ?ok = "\<lambda>j. bucket_page_ids d j = old_id \<longrightarrow>
         (j = index \<or> j = new_index \<or> local_depths d j = local_depth)"
  let ?dn = "fanned d msk index old_id new_id local_depth n"
  have rd: "GetBucketPageId ?dn n = bucket_page_ids d n" "GetLocalDepth ?dn n = local_depths d n"
    by (simp_all add: GetBucketPageId_def GetLocalDepth_def fanned_def)
  have st1: "bucket_page_ids d n = old_id \<Longrightarrow>
      SetBucketPageId (SetLocalDepth ?dn n (local_depth + 1)) n
         (if (n AND msk) = (index AND msk) then old_id else new_id) =
      fanned d msk index old_id new_id local_depth (Suc n)"
    by (rule HashTableDirectoryPage.equality)
       (auto simp add: SetBucketPageId_def SetLocalDepth_def fanned_def fun_eq_iff less_Suc_eq)
  have st2: "bucket_page_ids d n \<noteq> old_id \<Longrightarrow>
      ?dn = fanned d msk index old_id new_id local_depth (Suc n)"
    by (rule HashTableDirectoryPage.equality)
       (auto simp add: fanned_def fun_eq_iff less_Suc_eq)
  have all: "(\<forall>j<Suc n. ?ok j) \<longleftrightarrow> (\<forall>j<n. ?ok j) \<and> ?ok n"
    by (auto simp: less_Suc_eq)
  have unroll: "foldl ?step (Inr d) [0..<Suc n] = ?step (foldl ?step (Inr d) [0..<n]) n"
    by simp
  show ?case
  proof (cases "\<forall>j<n. ?ok j")
    case False
    then have "foldl ?step (Inr d) [0..<n] = Inl DirectoryAssert" using Suc.IH by simp
    then have "foldl ?step (Inr d) [0..<Suc n] = Inl DirectoryAssert"
      by (simp only: unroll sum.case)
    moreover have "?rhs (Suc n) = Inl DirectoryAssert" using False all by auto
    ultimately show ?thesis by simp
  next
    case True
    then have pre: "foldl ?step (Inr d) [0..<n] = Inr ?dn" using Suc.IH by simp
    show ?thesis
    proof (cases "bucket_page_ids d n = old_id")
      case False
      have "?step (Inr ?dn) n = Inr ?dn" using False by (simp add: rd)
      then have "foldl ?step (Inr d) [0..<Suc n] = Inr ?dn" by (simp only: unroll pre)
      moreover have "?rhs (Suc n) = Inr (fanned d msk index old_id new_id local_depth (Suc n))"
        using False True all by auto
      ultimately show ?thesis using st2 [OF False] by simp
    next
      case old: True
      show ?thesis
      proof (cases "n = index \<or> n = new_index \<or> local_depths d n = local_depth")
        case ok: True
        have "?step (Inr ?dn) n =
              Inr (SetBucketPageId (SetLocalDepth ?dn n (local_depth + 1)) n
                     (if (n AND msk) = (index AND msk) then old_id else new_id))"
          using old ok by (simp add: rd)
        then have "foldl ?step (Inr d) [0..<Suc n] =
              Inr (fanned d msk index old_id new_id local_depth (Suc n))"
          by (simp only: unroll pre st1 [OF old])
        moreover have "?rhs (Suc n) = Inr (fanned d msk index old_id new_id local_depth (Suc n))"
          using ok True all by auto
        ultimately show ?thesis by simp
      next
        case bad: False
        have "?step (Inr ?dn) n = Inl DirectoryAssert"
          using old bad by (simp add: rd)
        then have "foldl ?step (Inr d) [0..<Suc n] = Inl DirectoryAssert"
          by (simp only: unroll pre)
        moreover have "?rhs (Suc n) = Inl DirectoryAssert" using old bad all by auto
        ultimately show ?thesis by simp
      qed
    qed
  qed
qed

lemma fan_out_eq:
  "fan_out d index new_index local_depth old_id new_id =
   (if \<forall>j<2 ^ global_depth d. bucket_page_ids d j = old_id \<longrightarrow>
         (j = index \<or> j = new_index \<or> local_depths d j = local_depth)
    then Inr (fanned d (GetLocalDepthMask d index) index old_id new_id local_depth
                (2 ^ global_depth d))
    else Inl DirectoryAssert)"
  by (simp only: fan_out_def Let_def Size_dir_eq fan_loop)

definition merged :: "HashTableDirectoryPage \<Rightarrow> page_id_t \<Rightarrow> page_id_t \<Rightarrow> nat \<Rightarrow> HashTableDirectoryPage" where
  "merged d bucket_id merge_id n =
     d\<lparr>local_depths := (\<lambda>j. if j < n \<and> (bucket_page_ids d j = bucket_id \<or> bucket_page_ids d j = merge_id)
                              then local_depths d j - 1 else local_depths d j),
       bucket_page_ids := (\<lambda>j. if j < n \<and> (bucket_page_ids d j = bucket_id \<or> bucket_page_ids d j = merge_id)
                              then merge_id else bucket_page_ids d j)\<rparr>"

lemma merged_0: "merged d bucket_id merge_id 0 = d"
  by (rule HashTableDirectoryPage.equality) (auto simp: merged_def)

subsection \<open>The scan at the start of SplitInsert\<close>

lemma split_scan_found:
  "snd (split_scan N b key val n) = bucket_has n b (key, val)"
proof (induction n)
  case 0
  then show ?case by (simp add: split_scan_def)
next
  case (Suc n)
  obtain fp dup where r: "split_scan N b key val n = (fp, dup)"
    by (cases "split_scan N b key val n")
  then have u: "foldl (\<lambda>(free_pos, is_duplicate) i.
              if is_duplicate then (free_pos, is_duplicate)
              else (if free_pos = N \<and> (\<not> IsOccupied b i \<or> \<not> IsReadable b i) then i else free_pos,
                    IsReadable b i \<and> IntComparator (KeyAt b i) key = 0 \<and> ValueAt b i = val))
       (N, False) [0..<n] = (fp, dup)"
    by (simp add: split_scan_def)
  have "dup = bucket_has n b (key, val)" using Suc.IH r by simp
  then show ?case
    by (auto simp add: split_scan_def u bucket_has_Suc prod_eq_iff KeyAt_def ValueAt_def)
qed

lemma split_scan_index:
  assumes "n \<le> N" "\<not> bucket_has n b (key, val)"
  shows "fst (split_scan N b key val n) = N \<longleftrightarrow> (\<forall>i<n. IsOccupied b i \<and> IsReadable b i)"
  using assms
proof (induction n)
  case 0
  then show ?case by (simp add: split_scan_def)
next
  case (Suc n)
  obtain fp dup where r: "split_scan N b key val n = (fp, dup)"
    by (cases "split_scan N b key val n")
  then have u: "foldl (\<lambda>(free_pos, is_duplicate) i.
              if is_duplicate then (free_pos, is_duplicate)
              else (if free_pos = N \<and> (\<not> IsOccupied b i \<or> \<not> IsReadable b i) then i else free_pos,
                    IsReadable b i \<and> IntComparator (KeyAt b i) key = 0 \<and> ValueAt b i = val))
       (N, False) [0..<n] = (fp, dup)"
    by (simp add: split_scan_def)
  have nh: "\<not> bucket_has n b (key, val)" using Suc.prems by (simp add: bucket_has_Suc)
  then have nf: "\<not> dup" using split_scan_found [of N b key val n] r by simp
  have ih: "fp = N \<longleftrightarrow> (\<forall>i<n. IsOccupied b i \<and> IsReadable b i)"
    using Suc.IH [OF _ nh] Suc.prems(1) r by simp
  have e: "fst (split_scan N b key val (Suc n)) =
           (if fp = N \<and> (\<not> IsOccupied b n \<or> \<not> IsReadable b n) then n else fp)"
    using nf by (simp add: split_scan_def u)
  show ?case
    unfolding e using ih Suc.prems(1) by (auto simp: less_Suc_eq)
qed

lemma split_scan_full:
  assumes "split_scan N b key val N = (N, False)"
  shows "\<not> bucket_has N b (key, val)" "\<forall>i<N. IsOccupied b i \<and> IsReadable b i"
proof -
  show nh: "\<not> bucket_has N b (key, val)"
    using split_scan_found [of N b key val N] assms by simp
  show "\<forall>i<N. IsOccupied b i \<and> IsReadable b i"
    using split_scan_index [OF le_refl nh] assms by simp
qed

subsection \<open>The redistribution loop\<close>

lemma redistribute_unroll:
  "foldl f a [0..<Suc n] = f (foldl f a [0..<n]) n"
  by simp

lemma redistribute_readable_prefix:
  assumes "\<forall>i<N. IsReadable old_pg i" "n \<le> N"
  shows "\<exists>og nw f.
     foldl (\<lambda>acc i.
              case acc of
                Inl e \<Rightarrow> Inl e
              | Inr (old_pg, new_pg, is_free) \<Rightarrow>
                  if \<not> IsReadable old_pg i then Inl ReadableAssert
                  else
                    let cur_key = KeyAt old_pg i in
                    if moves cur_key
                    then Inr (RemoveAt old_pg i,
                              snd (bucket_Insert N new_pg cur_key (ValueAt old_pg i)), True)
                    else Inr (old_pg, new_pg, is_free))
       (Inr (old_pg, new_pg0, False)) [0..<n] = Inr (og, nw, f) \<and>
     (\<forall>j. n \<le> j \<longrightarrow> IsReadable og j = IsReadable old_pg j)"
  (is "\<exists>og nw f. foldl ?step ?init [0..<n] = _ \<and> ?P n og")
  using assms(2)
proof (induction n)
  case 0
  then show ?case by auto
next
  case (Suc n)
  then obtain og nw f where pre: "foldl ?step ?init [0..<n] = Inr (og, nw, f)" and p: "?P n og"
    by auto
  have rn: "IsReadable og n" using p assms(1) Suc.prems by simp
  show ?case
  proof (cases "moves (KeyAt og n)")
    case True
    have "?step (Inr (og, nw, f)) n =
          Inr (RemoveAt og n, snd (bucket_Insert N nw (KeyAt og n) (ValueAt og n)), True)"
      using rn True by simp
    moreover have "?P (Suc n) (RemoveAt og n)"
      using p by (simp add: IsReadable_RemoveAt_other)
    ultimately show ?thesis by (simp only: redistribute_unroll pre) blast
  next
    case False
    have "?step (Inr (og, nw, f)) n = Inr (og, nw, f)"
      using rn False by simp
    moreover have "?P (Suc n) og" using p by simp
    ultimately show ?thesis by (simp only: redistribute_unroll pre) blast
  qed
qed

lemma redistribute_no_assert:
  assumes "\<forall>i<N. IsReadable old_pg i"
  shows "\<exists>r. redistribute N moves old_pg new_pg = Inr r"
  using redistribute_readable_prefix [OF assms le_refl, of moves new_pg]
  unfolding redistribute_def by blast

lemma redistribute_prefix:
  assumes full: "\<forall>i<N. IsReadable old_pg i"
    and wfo: "bucket_wf N old_pg" and dist: "bucket_distinct N old_pg"
    and wfn: "bucket_wf N new_pg0" and empty: "\<forall>i<N. \<not> IsReadable new_pg0 i"
    and n: "n \<le> N"
  shows "\<exists>og nw.
     foldl (\<lambda>acc i.
              case acc of
                Inl e \<Rightarrow> Inl e
              | Inr (old_pg, new_pg, is_free) \<Rightarrow>
                  if \<not> IsReadable old_pg i then Inl ReadableAssert
                  else
                    let cur_key = KeyAt old_pg i in
                    if moves cur_key
                    then Inr (RemoveAt old_pg i,
                              snd (bucket_Insert N new_pg cur_key (ValueAt old_pg i)), True)
                    else Inr (old_pg, new_pg, is_free))
       (Inr (old_pg, new_pg0, False)) [0..<n] =
       Inr (og, nw, \<exists>i<n. moves (KeyAt old_pg i)) \<and>
     bucket_wf N og \<and> array og = array old_pg \<and> occupied og = occupied old_pg \<and>
     (\<forall>i. IsReadable og i = (IsReadable old_pg i \<and> \<not> (i < n \<and> moves (KeyAt old_pg i)))) \<and>
     bucket_wf N nw \<and> bucket_distinct N nw \<and>
     (\<forall>i<N. IsReadable nw i \<longrightarrow> IsOccupied nw i) \<and>
     (\<forall>e. bucket_has N nw e \<longleftrightarrow> moves (fst e) \<and> (\<exists>i<n. array old_pg ! i = e)) \<and>
     card {i. i < N \<and> IsReadable nw i} = card {i. i < n \<and> moves (KeyAt old_pg i)}"
  (is "\<exists>og nw. foldl ?step ?init [0..<n] = Inr (og, nw, ?F n) \<and> ?P n og nw")
  using n
proof (induction n)
  case 0
  have "bucket_distinct N new_pg0" using empty by (simp add: bucket_distinct_def)
  moreover have "\<not> bucket_has N new_pg0 e" for e using empty by (auto simp add: bucket_has_def)
  moreover have "{i. i < N \<and> IsReadable new_pg0 i} = {}" using empty by auto
  ultimately show ?case using wfo wfn empty by simp
next
  case (Suc n)
  then obtain og nw where pre: "foldl ?step ?init [0..<n] = Inr (og, nw, ?F n)" and p: "?P n og nw"
    by auto
  have nN: "n < N" using Suc.prems by simp
  have rn: "IsReadable og n" using p full nN by simp
  have kn: "KeyAt og n = KeyAt old_pg n" "ValueAt og n = ValueAt old_pg n"
    using p by (simp_all add: KeyAt_def ValueAt_def)
  have Fs: "?F (Suc n) \<longleftrightarrow> ?F n \<or> moves (KeyAt old_pg n)"
    by (auto simp add: less_Suc_eq)
  have wfo': "bucket_wf N og" and wfn': "bucket_wf N nw" using p by simp_all
  show ?case
  proof (cases "moves (KeyAt old_pg n)")
    case False
    have "?step (Inr (og, nw, ?F n)) n = Inr (og, nw, ?F (Suc n))"
      using rn False kn Fs by simp
    moreover have "{i. i < Suc n \<and> moves (KeyAt old_pg i)} = {i. i < n \<and> moves (KeyAt old_pg i)}"
      using False by (auto simp add: less_Suc_eq)
    then have "?P (Suc n) og nw"
      using p False by (auto simp add: less_Suc_eq KeyAt_def)
    ultimately show ?thesis by (simp only: redistribute_unroll pre) blast
  next
    case True
    let ?e = "array old_pg ! n"
    let ?ins = "bucket_Insert N nw (KeyAt old_pg n) (ValueAt old_pg n)"
    have e: "(KeyAt old_pg n, ValueAt old_pg n) = ?e" by (simp add: KeyAt_def ValueAt_def)
    have nh: "\<not> bucket_has N nw ?e"
    proof
      assume "bucket_has N nw ?e"
      then obtain i where i: "i < n" "array old_pg ! i = ?e" using p by auto
      then have "i < N" using nN by simp
      then have "i = n" using dist full nN i(2) unfolding bucket_distinct_def by blast
      then show False using i(1) by simp
    qed
    have fin: "finite {i. i < n \<and> moves (KeyAt old_pg i)}" by simp
    have "card {i. i < n \<and> moves (KeyAt old_pg i)} \<le> card {i. i < n}"
      by (rule card_mono) auto
    then have cle: "card {i. i < N \<and> IsReadable nw i} < N" using p nN by simp
    have nfull: "\<not> (\<forall>i<N. IsReadable nw i)"
    proof
      assume "\<forall>i<N. IsReadable nw i"
      then have "{i. i < N \<and> IsReadable nw i} = {i. i < N}" by auto
      then show False using cle by simp
    qed
    have ok: "fst ?ins"
      using bucket_Insert_fail_iff [of N nw "KeyAt old_pg n" "ValueAt old_pg n"] nh nfull e
      by simp
    from bucket_Insert_free_slots [OF wfn' ok] obtain j where j: "j < N" "\<not> IsReadable nw j"
      and rj: "\<And>i. IsReadable (snd ?ins) i = (i = j \<or> IsReadable nw i)"
      by blast
    have "{i. i < N \<and> IsReadable (snd ?ins) i} = insert j {i. i < N \<and> IsReadable nw i}"
      using j rj by auto
    then have c1: "card {i. i < N \<and> IsReadable (snd ?ins) i} =
                   Suc (card {i. i < N \<and> IsReadable nw i})"
      using j by simp
    have "{i. i < Suc n \<and> moves (KeyAt old_pg i)} = insert n {i. i < n \<and> moves (KeyAt old_pg i)}"
      using True by (auto simp add: less_Suc_eq)
    then have c2: "card {i. i < Suc n \<and> moves (KeyAt old_pg i)} =
                   Suc (card {i. i < n \<and> moves (KeyAt old_pg i)})"
      by simp
    have bk: "bucket_BK1 N nw" using p by (simp add: bucket_BK1_def)
    have bk': "\<forall>i<N. IsReadable (snd ?ins) i \<longrightarrow> IsOccupied (snd ?ins) i"
      using bucket_Insert_BK1 [OF wfn' bk] by (simp add: bucket_BK1_def)
    have hn: "bucket_has N nw x \<longleftrightarrow> moves (fst x) \<and> (\<exists>i<n. array old_pg ! i = x)" for x
      using p by blast
    have h1: "bucket_has N (snd ?ins) x \<longleftrightarrow> bucket_has N nw x \<or> x = ?e" for x
      using ok by (simp add: bucket_Insert_has [OF wfn'] e)
    have me: "moves (fst ?e)" using True by (simp add: KeyAt_def)
    have has': "bucket_has N (snd ?ins) x \<longleftrightarrow>
                moves (fst x) \<and> (\<exists>i<Suc n. array old_pg ! i = x)" for x
      unfolding h1 hn using me by (auto simp add: less_Suc_eq)
    have step: "?step (Inr (og, nw, ?F n)) n = Inr (RemoveAt og n, snd ?ins, ?F (Suc n))"
      using rn True kn Fs by simp
    have po: "array og = array old_pg" "occupied og = occupied old_pg"
      "\<And>i. IsReadable og i = (IsReadable old_pg i \<and> \<not> (i < n \<and> moves (KeyAt old_pg i)))"
      "bucket_distinct N nw"
      "card {i. i < N \<and> IsReadable nw i} = card {i. i < n \<and> moves (KeyAt old_pg i)}"
      using p by simp_all
    have r': "IsReadable (RemoveAt og n) i =
              (IsReadable old_pg i \<and> \<not> (i < Suc n \<and> moves (KeyAt old_pg i)))" for i
      using True by (auto simp add: IsReadable_RemoveAt [OF wfo' nN] po(3) less_Suc_eq)
    have "?P (Suc n) (RemoveAt og n) (snd ?ins)"
      using wfo' po(1,2) r' bucket_Insert_wf [OF wfn'] bucket_Insert_distinct [OF wfn' po(4)]
        bk' has' c1 c2 po(5)
      by simp
    then show ?thesis using step by (simp only: redistribute_unroll pre) blast
  qed
qed

lemma redistribute_result:
  assumes full: "\<forall>i<N. IsReadable old_pg i"
    and wfo: "bucket_wf N old_pg" and dist: "bucket_distinct N old_pg"
    and bk: "bucket_BK1 N old_pg"
    and wfn: "bucket_wf N new_pg0" and empty: "\<forall>i<N. \<not> IsReadable new_pg0 i"
  obtains og nw where
    "redistribute N moves old_pg new_pg0 = Inr (og, nw, \<exists>i<N. moves (KeyAt old_pg i))"
    "bucket_wf N og" "bucket_distinct N og" "bucket_BK1 N og"
    "\<And>e. bucket_has N og e \<longleftrightarrow> bucket_has N old_pg e \<and> \<not> moves (fst e)"
    "\<And>i. i < N \<Longrightarrow> IsReadable og i \<longleftrightarrow> \<not> moves (KeyAt old_pg i)"
    "bucket_wf N nw" "bucket_distinct N nw" "bucket_BK1 N nw"
    "\<And>e. bucket_has N nw e \<longleftrightarrow> bucket_has N old_pg e \<and> moves (fst e)"
    "(\<forall>i<N. IsReadable nw i) \<longleftrightarrow> (\<forall>i<N. moves (KeyAt old_pg i))"
proof -
  from redistribute_prefix [OF full wfo dist wfn empty le_refl, of moves] obtain og nw where
    r: "redistribute N moves old_pg new_pg0 = Inr (og, nw, \<exists>i<N. moves (KeyAt old_pg i))"
    and o: "bucket_wf N og" "array og = array old_pg" "occupied og = occupied old_pg"
      "\<And>i. IsReadable og i = (IsReadable old_pg i \<and> \<not> (i < N \<and> moves (KeyAt old_pg i)))"
    and nw: "bucket_wf N nw" "bucket_distinct N nw"
      "\<forall>i<N. IsReadable nw i \<longrightarrow> IsOccupied nw i"
      "\<And>e. bucket_has N nw e \<longleftrightarrow> moves (fst e) \<and> (\<exists>i<N. array old_pg ! i = e)"
      "card {i. i < N \<and> IsReadable nw i} = card {i. i < N \<and> moves (KeyAt old_pg i)}"
    unfolding redistribute_def by blast
  have d: "bucket_distinct N og"
    using dist by (auto simp add: bucket_distinct_def o)
  have b1: "bucket_BK1 N og"
    using bk by (auto simp add: bucket_BK1_def o IsOccupied_bit)
  have ho: "bucket_has N og e \<longleftrightarrow> bucket_has N old_pg e \<and> \<not> moves (fst e)" for e
    by (auto simp add: bucket_has_def o KeyAt_def)
  have ro: "IsReadable og i \<longleftrightarrow> \<not> moves (KeyAt old_pg i)" if "i < N" for i
    using that full by (simp add: o)
  have hn: "bucket_has N nw e \<longleftrightarrow> bucket_has N old_pg e \<and> moves (fst e)" for e
    by (subst nw(4)) (use full in \<open>auto simp add: bucket_has_def\<close>)
  have fl: "(\<forall>i<N. IsReadable nw i) \<longleftrightarrow> (\<forall>i<N. moves (KeyAt old_pg i))"
  proof
    assume "\<forall>i<N. IsReadable nw i"
    then have "{i. i < N \<and> IsReadable nw i} = {i. i < N}" by auto
    then have c: "card {i. i < N \<and> moves (KeyAt old_pg i)} = N" using nw(5) by simp
    have "{i. i < N \<and> moves (KeyAt old_pg i)} = {i. i < N}"
      by (rule card_subset_eq) (use c in auto)
    then show "\<forall>i<N. moves (KeyAt old_pg i)" by auto
  next
    assume "\<forall>i<N. moves (KeyAt old_pg i)"
    then have "{i. i < N \<and> moves (KeyAt old_pg i)} = {i. i < N}" by auto
    then have c: "card {i. i < N \<and> IsReadable nw i} = N" using nw(5) by simp
    have "{i. i < N \<and> IsReadable nw i} = {i. i < N}"
      by (rule card_subset_eq) (use c in auto)
    then show "\<forall>i<N. IsReadable nw i" by auto
  qed
  show ?thesis
    using that [OF r o(1) d b1 ho ro nw(1,2) _ hn fl] nw(3) by (simp add: bucket_BK1_def)
qed

subsection \<open>One pass of SplitInsert\<close>

definition result_state :: "split_result \<Rightarrow> ExtendibleHashTable" where
  "result_state r = (case r of Returned ret s \<Rightarrow> s | Retry s \<Rightarrow> s)"

definition grow_split :: "HashTableDirectoryPage \<Rightarrow> nat \<Rightarrow> page_id_t \<Rightarrow> HashTableDirectoryPage" where
  "grow_split d index new_bucket_page_id =
     (let d1 = IncrGlobalDepth (grown d (2 ^ global_depth d));
          new_index = index + 2 ^ global_depth d
      in SetLocalDepth
           (SetLocalDepth (SetBucketPageId d1 new_index new_bucket_page_id) new_index
              (global_depth d + 1))
           index (global_depth d + 1))"

lemma UnpinPage_fields [simp]:
  "dir_page (snd (UnpinPage s p dflag)) = dir_page s"
  "bucket_pages (snd (UnpinPage s p dflag)) = bucket_pages s"
  "directory_page_id (snd (UnpinPage s p dflag)) = directory_page_id s"
  "next_page_id (snd (UnpinPage s p dflag)) = next_page_id s"
  by (simp_all add: UnpinPage_def)

lemma FetchPage_fields [simp]:
  "dir_page (FetchPage s p) = dir_page s"
  "bucket_pages (FetchPage s p) = bucket_pages s"
  "directory_page_id (FetchPage s p) = directory_page_id s"
  "next_page_id (FetchPage s p) = next_page_id s"
  "pins (FetchPage s p) = (pins s)(p := pins s p + 1)"
  "dirty (FetchPage s p) = dirty s"
  by (simp_all add: FetchPage_def)

lemma put_bucket_fields [simp]:
  "dir_page (put_bucket s p b) = dir_page s"
  "bucket_pages (put_bucket s p b) = (bucket_pages s)(p \<mapsto> b)"
  "directory_page_id (put_bucket s p b) = directory_page_id s"
  "next_page_id (put_bucket s p b) = next_page_id s"
  "pins (put_bucket s p b) = pins s"
  "dirty (put_bucket s p b) = dirty s"
  by (simp_all add: put_bucket_def)

lemma put_dir_fields [simp]:
  "dir_page (put_dir s d) = d"
  "bucket_pages (put_dir s d) = bucket_pages s"
  "directory_page_id (put_dir s d) = directory_page_id s"
  "next_page_id (put_dir s d) = next_page_id s"
  "pins (put_dir s d) = pins s"
  "dirty (put_dir s d) = dirty s"
  by (simp_all add: put_dir_def)

lemma split_finish_fields:
  "dir_page (result_state (split_finish s d op opg od np npg nd ret)) = d"
  "bucket_pages (result_state (split_finish s d op opg od np npg nd ret)) =
     (bucket_pages s)(op \<mapsto> opg, np \<mapsto> npg)"
  "directory_page_id (result_state (split_finish s d op opg od np npg nd ret)) = directory_page_id s"
  "next_page_id (result_state (split_finish s d op opg od np npg nd ret)) = next_page_id s"
  by (simp_all add: split_finish_def result_state_def Let_def)

lemma split_finish_Retry:
  "split_finish s d op opg od np npg nd ret = Retry s' \<longleftrightarrow>
     \<not> ret \<and> s' = result_state (split_finish s d op opg od np npg nd ret)"
  by (auto simp add: split_finish_def result_state_def Let_def)

lemma split_finish_Returned:
  "split_finish s d op opg od np npg nd ret = Returned b s' \<longleftrightarrow>
     ret \<and> b \<and> s' = result_state (split_finish s d op opg od np npg nd ret)"
  by (auto simp add: split_finish_def result_state_def Let_def)

lemma NewPage_eq:
  "NewPage N s = (next_page_id s, zero_page N, snd (snd (NewPage N s)))"
  by (simp add: NewPage_def)

lemma NewPage_fields [simp]:
  "dir_page (snd (snd (NewPage N s))) = dir_page s"
  "bucket_pages (snd (snd (NewPage N s))) = (bucket_pages s)(next_page_id s \<mapsto> zero_page N)"
  "directory_page_id (snd (snd (NewPage N s))) = directory_page_id s"
  "next_page_id (snd (snd (NewPage N s))) = next_page_id s + 1"
  "pins (snd (snd (NewPage N s))) = (pins s)(next_page_id s := 1)"
  by (simp_all add: NewPage_def)

lemma KeyToDirectoryIndex_eq:
  "KeyToDirectoryIndex H key d = take_bit (global_depth d) (Hash H key)"
  by (simp only: KeyToDirectoryIndex_def GetGlobalDepthMask_def nat_and_low_mask)

lemma KeyToDirectoryIndex_less: "KeyToDirectoryIndex H key d < 2 ^ global_depth d"
  by (simp add: KeyToDirectoryIndex_eq)

lemma grow_split_fields:
  "global_depth (grow_split d index p) = global_depth d + 1"
  "dir_page_id (grow_split d index p) = dir_page_id d"
  by (simp_all add: grow_split_def Let_def SetLocalDepth_def SetBucketPageId_def
      IncrGlobalDepth_def grown_def)

lemma key_index_after_grow:
  "KeyToDirectoryIndex H key (grow_split d index p) = KeyToDirectoryIndex H key d \<or>
   KeyToDirectoryIndex H key (grow_split d index p) =
     KeyToDirectoryIndex H key d + 2 ^ global_depth d"
  by (simp add: KeyToDirectoryIndex_eq grow_split_fields take_bit_Suc_from_most)

lemma split_grow_shape:
  assumes "split_grow N H s d index op opg key val = Inr r"
    and "index = KeyToDirectoryIndex H key d"
  shows "\<exists>opg' od npg nd ret.
        r = split_finish (snd (snd (NewPage N s))) (grow_split d index (next_page_id s))
              op opg' od (next_page_id s) npg nd ret \<and>
        (\<not> ret \<longrightarrow> KeyToDirectoryIndex H key (grow_split d index (next_page_id s)) = index)"
proof -
  have "index < 2 ^ global_depth d" using assms(2) by (simp add: KeyToDirectoryIndex_less)
  then have ni: "index OR push_bit (GetGlobalDepth d) 1 = index + 2 ^ global_depth d"
    by (simp only: GetGlobalDepth_def nat_or_exp)
  note ki = key_index_after_grow [of H key d index "next_page_id s", folded assms(2)]
  have gs: "SetLocalDepth
             (SetLocalDepth
                (SetBucketPageId (IncrGlobalDepth (grown d (2 ^ global_depth d)))
                   (index + 2 ^ global_depth d) (next_page_id s))
                (index + 2 ^ global_depth d)
                (GetGlobalDepth
                   (SetBucketPageId (IncrGlobalDepth (grown d (2 ^ global_depth d)))
                      (index + 2 ^ global_depth d) (next_page_id s))))
             index
             (GetGlobalDepth
                (SetLocalDepth
                   (SetBucketPageId (IncrGlobalDepth (grown d (2 ^ global_depth d)))
                      (index + 2 ^ global_depth d) (next_page_id s))
                   (index + 2 ^ global_depth d)
                   (GetGlobalDepth
                      (SetBucketPageId (IncrGlobalDepth (grown d (2 ^ global_depth d)))
                         (index + 2 ^ global_depth d) (next_page_id s))))) =
            grow_split d index (next_page_id s)"
    by (simp add: grow_split_def Let_def GetGlobalDepth_def SetLocalDepth_def SetBucketPageId_def
        IncrGlobalDepth_def grown_def)
  show ?thesis
    using assms(1) ki
    apply (simp only: split_grow_def grow_directory_eq ni Let_def)
    apply (subst (asm) NewPage_eq)
    apply (simp only: prod.case gs)
    apply (simp split: if_splits sum.splits prod.splits)
    apply blast+
    done
qed

definition local_split ::
  "HashTableDirectoryPage \<Rightarrow> nat \<Rightarrow> page_id_t \<Rightarrow> page_id_t \<Rightarrow> HashTableDirectoryPage" where
  "local_split d index old_id new_id =
     (let new_index = push_bit (local_depths d index) 1 XOR index;
          d3 = IncrLocalDepth (IncrLocalDepth (SetBucketPageId d new_index new_id) index) new_index
      in fanned d3 (GetLocalDepthMask d3 index) index old_id new_id (local_depths d index)
           (2 ^ global_depth d))"

lemma local_split_fields:
  "global_depth (local_split d index old_id new_id) = global_depth d"
  "dir_page_id (local_split d index old_id new_id) = dir_page_id d"
  by (simp_all add: local_split_def Let_def fanned_fields IncrLocalDepth_def SetBucketPageId_def)

lemma split_local_shape:
  assumes "split_local N H s d index op opg key val = Inr r"
  shows "local_depths d index < global_depth d \<and>
     (\<exists>opg' od npg nd ret.
        r = split_finish (snd (snd (NewPage N s))) (local_split d index op (next_page_id s))
              op opg' od (next_page_id s) npg nd ret)"
proof -
  have g3: "global_depth
      (IncrLocalDepth (IncrLocalDepth (SetBucketPageId d x p) index) y) = global_depth d" for x y p
    by (simp add: IncrLocalDepth_def SetBucketPageId_def)
  show ?thesis
    using assms
    apply (simp only: split_local_def Let_def)
    apply (subst (asm) NewPage_eq)
    apply (simp only: prod.case fan_out_eq g3 GetLocalDepth_def GetGlobalDepth_def)
    apply (simp add: local_split_def Let_def split: if_splits sum.splits prod.splits
        del: push_bit_of_1)
    apply blast+
    done
qed

lemma xor_exp_neq: "push_bit L 1 XOR (i::nat) \<noteq> i"
  by (metis take_bit_Suc_xor_exp_neq)

lemma local_split_ld_index:
  assumes "old_id = bucket_page_ids d index" "index < 2 ^ global_depth d"
  shows "local_depths (local_split d index old_id new_id) index = local_depths d index + 1"
proof -
  have "push_bit (local_depths d index) 1 XOR index \<noteq> index" by (rule xor_exp_neq)
  then show ?thesis
    using assms
    by (simp add: local_split_def Let_def fanned_def IncrLocalDepth_def SetBucketPageId_def
        del: push_bit_of_1)
qed

lemma grow_split_ld_index:
  "local_depths (grow_split d index new_id) index = global_depth d + 1"
  by (simp add: grow_split_def Let_def SetLocalDepth_def)

lemma SplitInsert_once_cases:
  assumes "SplitInsert_once N H s key val = Inr r"
  obtains
    (dup) b where "r = Returned False (snd (UnpinPage (snd (UnpinPage
                     (FetchPage (FetchPage s (directory_page_id s)) (KeyToPageId H key (dir_page s)))
                     (directory_page_id s) False)) (KeyToPageId H key (dir_page s)) False))"
      "bucket_pages s (KeyToPageId H key (dir_page s)) = Some b"
      "snd (split_scan N b key val N)"
  | (direct) b where "r = Returned True (snd (UnpinPage (snd (UnpinPage
                     (put_bucket
                        (FetchPage (FetchPage s (directory_page_id s)) (KeyToPageId H key (dir_page s)))
                        (KeyToPageId H key (dir_page s)) (snd (bucket_Insert N b key val)))
                     (directory_page_id s) False)) (KeyToPageId H key (dir_page s)) True))"
      "bucket_pages s (KeyToPageId H key (dir_page s)) = Some b"
      "\<not> snd (split_scan N b key val N)" "fst (split_scan N b key val N) \<noteq> N"
  | (grow) b where
      "split_grow N H
         (FetchPage (FetchPage s (directory_page_id s)) (KeyToPageId H key (dir_page s)))
         (dir_page s) (KeyToDirectoryIndex H key (dir_page s)) (KeyToPageId H key (dir_page s))
         b key val = Inr r"
      "bucket_pages s (KeyToPageId H key (dir_page s)) = Some b"
      "split_scan N b key val N = (N, False)"
      "local_depths (dir_page s) (KeyToDirectoryIndex H key (dir_page s)) = global_depth (dir_page s)"
  | (local) b where
      "split_local N H
         (FetchPage (FetchPage s (directory_page_id s)) (KeyToPageId H key (dir_page s)))
         (dir_page s) (KeyToDirectoryIndex H key (dir_page s)) (KeyToPageId H key (dir_page s))
         b key val = Inr r"
      "bucket_pages s (KeyToPageId H key (dir_page s)) = Some b"
      "split_scan N b key val N = (N, False)"
      "local_depths (dir_page s) (KeyToDirectoryIndex H key (dir_page s)) \<noteq> global_depth (dir_page s)"
  using assms
  by (auto simp add: SplitInsert_once_def FetchDirectoryPage_def FetchBucketPage_def Let_def
      KeyToPageId_def [symmetric] GetLocalDepth_def GetGlobalDepth_def
      split: option.splits prod.splits if_splits)

section \<open>Insert, with the recursion of SplitInsert\<close>

text \<open>
  \<open>SplitInsert\<close> calls itself when the entry did not fit after a split. Nothing in the
  source bounds the number of these calls, so the result is an option: \<open>None\<close> stands for a
  call that does not return, \<open>Some (Inl e)\<close> for a failed assertion, and
  \<open>Some (Inr (ret, s'))\<close> for the value returned and the state left behind.
\<close>

partial_function (option) SplitInsert ::
  "nat \<Rightarrow> (KeyType \<Rightarrow> 64 word) \<Rightarrow> ExtendibleHashTable \<Rightarrow> KeyType \<Rightarrow> ValueType
     \<Rightarrow> (fault + bool \<times> ExtendibleHashTable) option" where
  "SplitInsert N H s key val =
     (case SplitInsert_once N H s key val of
        Inl e \<Rightarrow> Some (Inl e)
      | Inr (Returned ret s') \<Rightarrow> Some (Inr (ret, s'))
      | Inr (Retry s') \<Rightarrow> SplitInsert N H s' key val)"

declare SplitInsert.simps [code]

definition Insert ::
  "nat \<Rightarrow> (KeyType \<Rightarrow> 64 word) \<Rightarrow> ExtendibleHashTable \<Rightarrow> KeyType \<Rightarrow> ValueType
     \<Rightarrow> (fault + bool \<times> ExtendibleHashTable) option" where
  "Insert N H s key val =
     (case FetchDirectoryPage s of (d, s1) \<Rightarrow>
      case FetchBucketPage s1 (KeyToPageId H key d) of
        Inl e \<Rightarrow> Some (Inl e)
      | Inr (bucket_page, s2) \<Rightarrow>
          (case bucket_Insert N bucket_page key val of (flag, pg) \<Rightarrow>
             let s3 = put_bucket s2 (KeyToPageId H key d) pg;
                 s4 = snd (UnpinPage s3 (dir_page_id d) False);
                 s5 = snd (UnpinPage s4 (KeyToPageId H key d) flag)
             in if \<not> flag then SplitInsert N H s5 key val else Some (Inr (flag, s5))))"


subsection \<open>The directory rewrite of a merge, slot by slot\<close>

lemma merge_loop:
  "foldl (\<lambda>dp i.
            let curr_bucket_page_id = GetBucketPageId dp i in
            if curr_bucket_page_id = bucket_id \<or> curr_bucket_page_id = merge_id
            then DecrLocalDepth (SetBucketPageId dp i merge_id) i
            else dp)
     d [0..<n] = merged d bucket_id merge_id n"
  (is "foldl ?step d [0..<n] = _")
proof (induction n)
  case 0
  then show ?case by (simp add: merged_0)
next
  case (Suc n)
  let ?dn = "merged d bucket_id merge_id n"
  have rd: "GetBucketPageId ?dn n = bucket_page_ids d n"
    by (simp add: GetBucketPageId_def merged_def)
  have st1: "bucket_page_ids d n = bucket_id \<or> bucket_page_ids d n = merge_id \<Longrightarrow>
      DecrLocalDepth (SetBucketPageId ?dn n merge_id) n = merged d bucket_id merge_id (Suc n)"
    by (rule HashTableDirectoryPage.equality)
       (auto simp add: SetBucketPageId_def DecrLocalDepth_def merged_def fun_eq_iff less_Suc_eq)
  have st2: "\<not> (bucket_page_ids d n = bucket_id \<or> bucket_page_ids d n = merge_id) \<Longrightarrow>
      ?dn = merged d bucket_id merge_id (Suc n)"
    by (rule HashTableDirectoryPage.equality)
       (auto simp add: merged_def fun_eq_iff less_Suc_eq)
  have "foldl ?step d [0..<Suc n] = ?step (foldl ?step d [0..<n]) n" by simp
  also have "\<dots> = ?step ?dn n" by (simp only: Suc.IH)
  also have "\<dots> = merged d bucket_id merge_id (Suc n)"
    using st1 st2 by (simp add: rd Let_def)
  finally show ?case .
qed

lemma merge_rewrite_eq:
  "merge_rewrite d bucket_id merge_id = merged d bucket_id merge_id (2 ^ global_depth d)"
  by (simp only: merge_rewrite_def Size_dir_eq merge_loop)

lemma merged_fields:
  "global_depth (merged d bucket_id merge_id n) = global_depth d"
  "dir_page_id (merged d bucket_id merge_id n) = dir_page_id d"
  by (simp_all add: merged_def)

definition merge_dir :: "HashTableDirectoryPage \<Rightarrow> nat \<Rightarrow> HashTableDirectoryPage" where
  "merge_dir d bucket_index =
     merged d (bucket_page_ids d bucket_index)
       (bucket_page_ids d (GetSplitImageIndex d bucket_index)) (2 ^ global_depth d)"

definition can_merge :: "nat \<Rightarrow> ExtendibleHashTable \<Rightarrow> nat \<Rightarrow> HashTableBucketPage \<Rightarrow> bool" where
  "can_merge N s bucket_index b \<longleftrightarrow>
     0 < local_depths (dir_page s) bucket_index \<and> IsEmpty N b \<and>
     local_depths (dir_page s) bucket_index =
       local_depths (dir_page s) (GetSplitImageIndex (dir_page s) bucket_index)"

lemma Merge_iter_cases:
  assumes "Merge_iter N s bucket_index = Inr (s', nx)"
  obtains
    (stop) b where "bucket_pages s (bucket_page_ids (dir_page s) bucket_index) = Some b"
      "\<not> can_merge N s bucket_index b" "nx = None"
      "s' = snd (UnpinPage (FetchPage s (bucket_page_ids (dir_page s) bucket_index))
                   (bucket_page_ids (dir_page s) bucket_index) False)"
  | (shrink) b where "bucket_pages s (bucket_page_ids (dir_page s) bucket_index) = Some b"
      "can_merge N s bucket_index b" "CanShrink (merge_dir (dir_page s) bucket_index)"
      "nx = Some (take_bit (global_depth (dir_page s) - 1)
                    (GetSplitImageIndex (dir_page s) bucket_index))"
      "s' = put_dir (snd (DeletePage (snd (UnpinPage
                 (put_dir (FetchPage s (bucket_page_ids (dir_page s) bucket_index))
                    (merge_dir (dir_page s) bucket_index))
                 (bucket_page_ids (dir_page s) bucket_index) False))
               (bucket_page_ids (dir_page s) bucket_index)))
             (DecrGlobalDepth (merge_dir (dir_page s) bucket_index))"
  | (keep) b where "bucket_pages s (bucket_page_ids (dir_page s) bucket_index) = Some b"
      "can_merge N s bucket_index b" "\<not> CanShrink (merge_dir (dir_page s) bucket_index)"
      "nx = Some (GetSplitImageIndex (dir_page s) bucket_index)"
      "s' = snd (DeletePage (snd (UnpinPage
                 (put_dir (FetchPage s (bucket_page_ids (dir_page s) bucket_index))
                    (merge_dir (dir_page s) bucket_index))
                 (bucket_page_ids (dir_page s) bucket_index) False))
               (bucket_page_ids (dir_page s) bucket_index))"
proof -
  obtain b where b: "bucket_pages s (bucket_page_ids (dir_page s) bucket_index) = Some b"
    using assms
    by (auto simp add: Merge_iter_def Let_def FetchBucketPage_def GetBucketPageId_def
        split: option.splits)
  have m: "x AND GetGlobalDepthMask (DecrGlobalDepth d) = take_bit (global_depth d - 1) x"
    for x d
  proof -
    have "global_depth (DecrGlobalDepth d) = global_depth d - 1"
      by (simp add: DecrGlobalDepth_def)
    then show ?thesis by (simp only: GetGlobalDepthMask_def nat_and_low_mask)
  qed
  have pd: "put_dir (FetchPage s p) (dir_page s) = FetchPage s p" for p
    by (simp add: put_dir_def FetchPage_def)
  show ?thesis
  proof (cases "can_merge N s bucket_index b")
    case False
    then show ?thesis
      using assms b
      by (intro stop [of b])
         (auto simp add: Merge_iter_def Let_def FetchBucketPage_def GetBucketPageId_def
          GetLocalDepth_def can_merge_def pd split: if_splits)
  next
    case True
    show ?thesis
    proof (cases "CanShrink (merge_dir (dir_page s) bucket_index)")
      case cs: True
      show ?thesis
        using assms b True cs
        by (intro shrink [of b])
           (auto simp add: Merge_iter_def Let_def FetchBucketPage_def GetBucketPageId_def
            GetLocalDepth_def can_merge_def merge_rewrite_eq merge_dir_def m
            merged_fields split: if_splits)
    next
      case cs: False
      show ?thesis
        using assms b True cs
        by (intro keep [of b])
           (auto simp add: Merge_iter_def Let_def FetchBucketPage_def GetBucketPageId_def
            GetLocalDepth_def can_merge_def merge_rewrite_eq merge_dir_def
            split: if_splits)
    qed
  qed
qed

section \<open>The readable-slot assertion of the redistribution loops\<close>

lemma split_grow_not_ReadableAssert:
  assumes "\<forall>i<N. IsReadable opg i"
  shows "split_grow N H s d index op opg key val \<noteq> Inl ReadableAssert"
proof -
  have "\<exists>r. redistribute N moves opg npg = Inr r" for moves npg
    using assms by (rule redistribute_no_assert)
  then have "redistribute N moves opg npg \<noteq> Inl e" for moves npg e
    by (metis Inl_Inr_False)
  then show ?thesis
    by (auto simp add: split_grow_def Let_def split: sum.splits prod.splits if_splits)
qed

lemma split_local_not_ReadableAssert:
  assumes "\<forall>i<N. IsReadable opg i"
  shows "split_local N H s d index op opg key val \<noteq> Inl ReadableAssert"
proof -
  have "\<exists>r. redistribute N moves opg npg = Inr r" for moves npg
    using assms by (rule redistribute_no_assert)
  then have "redistribute N moves opg npg \<noteq> Inl e" for moves npg e
    by (metis Inl_Inr_False)
  then show ?thesis
    by (auto simp add: split_local_def fan_out_eq Let_def split: sum.splits prod.splits if_splits)
qed

lemma SplitInsert_once_not_ReadableAssert:
  "SplitInsert_once N H s key val \<noteq> Inl ReadableAssert"
proof
  assume a: "SplitInsert_once N H s key val = Inl ReadableAssert"
  obtain d s1 where f: "FetchDirectoryPage s = (d, s1)" by (cases "FetchDirectoryPage s")
  let ?i = "KeyToDirectoryIndex H key d"
  let ?p = "GetBucketPageId d ?i"
  show False
  proof (cases "FetchBucketPage s1 ?p")
    case (Inl e)
    then have "e = BadPage" by (auto simp add: FetchBucketPage_def split: option.splits)
    then show False using a f Inl by (simp add: SplitInsert_once_def Let_def)
  next
    case (Inr x)
    obtain b s2 where x: "x = (b, s2)" by (cases x)
    obtain fp dup where sc: "split_scan N b key val N = (fp, dup)"
      by (cases "split_scan N b key val N")
    show False
    proof (cases "dup \<or> fp \<noteq> N")
      case True
      then show False
        using a f Inr x sc by (auto simp add: SplitInsert_once_def Let_def split: if_splits)
    next
      case False
      then have "split_scan N b key val N = (N, False)" using sc by simp
      then have full: "\<forall>i<N. IsReadable b i" using split_scan_full(2) by blast
      show False
        using a f Inr x sc False
          split_grow_not_ReadableAssert [OF full] split_local_not_ReadableAssert [OF full]
        by (auto simp add: SplitInsert_once_def Let_def split: if_splits)
    qed
  qed
qed

lemma SplitInsert_result_not_ReadableAssert:
  assumes "SplitInsert N H s key val = Some r"
  shows "r \<noteq> Inl ReadableAssert"
proof (rule SplitInsert.raw_induct
    [where P = "\<lambda>N H s key val r. r \<noteq> Inl ReadableAssert", OF _ assms], goal_cases)
  case (1 loop N H s key val r)
  show ?case
  proof (cases "SplitInsert_once N H s key val")
    case (Inl e)
    then have "e \<noteq> ReadableAssert" using SplitInsert_once_not_ReadableAssert by metis
    then show ?thesis using Inl 1(2) by auto
  next
    case (Inr x)
    show ?thesis
    proof (cases x)
      case (Returned ret s')
      then show ?thesis using Inr 1(2) by auto
    next
      case (Retry s')
      then have "loop N H s' key val = Some r" using Inr 1(2) by simp
      then show ?thesis by (rule 1(1))
    qed
  qed
qed

lemma SplitInsert_not_ReadableAssert:
  "SplitInsert N H s key val \<noteq> Some (Inl ReadableAssert)"
  using SplitInsert_result_not_ReadableAssert by blast

lemma Insert_not_ReadableAssert:
  "Insert N H s key val \<noteq> Some (Inl ReadableAssert)"
  by (auto simp add: Insert_def FetchDirectoryPage_def FetchBucketPage_def Let_def
      SplitInsert_not_ReadableAssert split: prod.splits sum.splits option.splits)

definition Hid :: "KeyType \<Rightarrow> 64 word" where
  "Hid key = word_of_int key"

definition two_odd_page :: HashTableBucketPage where
  "two_odd_page = \<lparr>occupied = [192], readable = [192], array = [(1, 1), (3, 3)]\<rparr>"

text \<open>
  Claim C10. \<open>SplitInsert\<close> reaches a redistribution loop only when its scan of the target
  bucket ended with \<open>is_duplicate = false\<close> and \<open>free_pos = BUCKET_ARRAY_SIZE\<close>, that is
  when \<open>split_scan\<close> returns \<open>(N, False)\<close>. Then every one of the \<open>N\<close> slots of the old
  bucket is readable; on a bucket all of whose slots are readable the redistribution loop
  (either of the two, they differ only in the test \<open>moves\<close> that selects the entries to move)
  runs to its end without failing \<open>assert(old_bucket_page->IsReadable(i))\<close>; and so no call
  of \<open>SplitInsert\<close> or \<open>Insert\<close>, from any state and through any number of retries, ends
  in the fault \<open>ReadableAssert\<close>.
\<close>

theorem readable_assertion_never_fails:
  "(split_scan N b key val N = (N, False) \<longrightarrow> (\<forall>i<N. IsReadable b i)) \<and>
   ((\<forall>i<N. IsReadable b i) \<longrightarrow> (\<exists>r. redistribute N moves b new_page = Inr r)) \<and>
   SplitInsert N H s key val \<noteq> Some (Inl ReadableAssert) \<and>
   Insert N H s key val \<noteq> Some (Inl ReadableAssert)"
  using split_scan_full(2) [of N b key val] redistribute_no_assert [of N b moves new_page]
    SplitInsert_not_ReadableAssert [of N H s key val]
    Insert_not_ReadableAssert [of N H s key val]
  by blast

lemma two_odd_scan: "split_scan 2 two_odd_page 5 5 2 = (2, False)"
  by code_simp

theorem readable_assertion_never_fails_witness:
  "split_scan 2 two_odd_page 5 5 2 = (2, False) \<and>
   IsReadable two_odd_page 0 \<and> IsReadable two_odd_page 1 \<and>
   (\<exists>r. redistribute 2 odd two_odd_page (zero_page 2) = Inr r) \<and>
   SplitInsert 2 Hid (ExtendibleHashTable_new 2) 5 5 \<noteq> Some (Inl ReadableAssert) \<and>
   Insert 2 Hid (ExtendibleHashTable_new 2) 5 5 \<noteq> Some (Inl ReadableAssert)"
proof -
  note t = readable_assertion_never_fails [of 2 two_odd_page 5 5 odd "zero_page 2" Hid
      "ExtendibleHashTable_new 2"]
  have full: "\<forall>i<2. IsReadable two_odd_page i" using t two_odd_scan by blast
  have "(0::nat) < 2" "(1::nat) < 2" by simp_all
  then have "IsReadable two_odd_page 0" "IsReadable two_odd_page 1" using full by blast+
  then show ?thesis using t two_odd_scan full by blast
qed

section \<open>Pin counts across the index operations\<close>

definition pool_ok :: "ExtendibleHashTable \<Rightarrow> bool" where
  "pool_ok s \<longleftrightarrow>
     dir_page_id (dir_page s) = directory_page_id s \<and>
     directory_page_id s < next_page_id s \<and>
     (\<forall>p. bucket_pages s p \<noteq> None \<longrightarrow> p < next_page_id s) \<and>
     (\<forall>p. next_page_id s \<le> p \<longrightarrow> pins s p = 0)"

lemma UnpinPage_pins:
  "pins (snd (UnpinPage s p dflag)) =
     (if p = directory_page_id s \<or> bucket_pages s p \<noteq> None
      then (pins s)(p := pins s p - 1) else pins s)"
  by (simp add: UnpinPage_def)

lemma DeletePage_fields [simp]:
  "dir_page (snd (DeletePage s p)) = dir_page s"
  "directory_page_id (snd (DeletePage s p)) = directory_page_id s"
  "next_page_id (snd (DeletePage s p)) = next_page_id s"
  "pins (snd (DeletePage s p)) = pins s"
  by (simp_all add: DeletePage_def split: option.splits)

lemma DeletePage_pages:
  "bucket_pages (snd (DeletePage s p)) q \<noteq> None \<Longrightarrow> bucket_pages s q \<noteq> None"
  by (auto simp add: DeletePage_def split: option.splits if_splits)

lemma split_finish_pins:
  "pins (result_state (split_finish s d op opg od np npg nd ret)) =
     (\<lambda>p. pins s p - (if p = op then 1 else 0) - (if p = np then 1 else 0)
                   - (if p = directory_page_id s then 1 else 0))"
  by (rule ext) (simp add: split_finish_def result_state_def Let_def UnpinPage_pins)

lemma split_pins:
  assumes ok: "pool_ok s" and b: "bucket_pages s op = Some b"
    and r: "r = split_finish
                  (snd (snd (NewPage N (FetchPage (FetchPage s (directory_page_id s)) op))))
                  d' op opg' od (next_page_id s) npg nd ret"
    and d': "dir_page_id d' = directory_page_id s"
  shows "pins (result_state r) = pins s \<and> pool_ok (result_state r)"
proof -
  have lt: "directory_page_id s < next_page_id s" "op < next_page_id s"
    and z: "\<And>p. next_page_id s \<le> p \<Longrightarrow> pins s p = 0"
    and pg: "\<And>p. bucket_pages s p \<noteq> None \<Longrightarrow> p < next_page_id s"
    using ok b by (auto simp add: pool_ok_def)
  have p: "pins (result_state r) = pins s"
    using lt z [of "next_page_id s"] by (auto simp add: r split_finish_pins fun_eq_iff)
  have "bucket_pages (result_state r) p \<noteq> None \<longrightarrow> p < next_page_id s + 1" for p
    using pg [of p] lt by (auto simp add: r split_finish_fields)
  moreover have "next_page_id s + 1 \<le> p \<longrightarrow> pins s p = 0" for p
    using z [of p] by simp
  ultimately have "pool_ok (result_state r)"
    unfolding pool_ok_def p
    using lt d' by (simp add: r split_finish_fields)
  with p show ?thesis by simp
qed

lemma SplitInsert_once_pins:
  assumes ok: "pool_ok s" and r: "SplitInsert_once N H s key val = Inr r"
  shows "pins (result_state r) = pins s \<and> pool_ok (result_state r)"
  using r
proof (cases rule: SplitInsert_once_cases)
  case (dup b)
  then show ?thesis
    using ok by (auto simp add: result_state_def UnpinPage_pins pool_ok_def fun_eq_iff)
next
  case (direct b)
  then show ?thesis
    using ok by (auto simp add: result_state_def UnpinPage_pins pool_ok_def fun_eq_iff)
next
  case (grow b)
  let ?s2 = "FetchPage (FetchPage s (directory_page_id s)) (KeyToPageId H key (dir_page s))"
  from split_grow_shape [OF grow(1) refl] obtain opg' od npg nd ret where
    "r = split_finish (snd (snd (NewPage N ?s2)))
           (grow_split (dir_page s) (KeyToDirectoryIndex H key (dir_page s)) (next_page_id ?s2))
           (KeyToPageId H key (dir_page s)) opg' od (next_page_id ?s2) npg nd ret"
    by blast
  then have "r = split_finish (snd (snd (NewPage N ?s2)))
           (grow_split (dir_page s) (KeyToDirectoryIndex H key (dir_page s)) (next_page_id s))
           (KeyToPageId H key (dir_page s)) opg' od (next_page_id s) npg nd ret"
    by simp
  then show ?thesis
    by (rule split_pins [OF ok grow(2)])
       (use ok in \<open>simp add: grow_split_fields pool_ok_def\<close>)
next
  case (local b)
  let ?s2 = "FetchPage (FetchPage s (directory_page_id s)) (KeyToPageId H key (dir_page s))"
  from split_local_shape [OF local(1)] obtain opg' od npg nd ret where
    "r = split_finish (snd (snd (NewPage N ?s2)))
           (local_split (dir_page s) (KeyToDirectoryIndex H key (dir_page s))
              (KeyToPageId H key (dir_page s)) (next_page_id ?s2))
           (KeyToPageId H key (dir_page s)) opg' od (next_page_id ?s2) npg nd ret"
    by blast
  then have "r = split_finish (snd (snd (NewPage N ?s2)))
           (local_split (dir_page s) (KeyToDirectoryIndex H key (dir_page s))
              (KeyToPageId H key (dir_page s)) (next_page_id s))
           (KeyToPageId H key (dir_page s)) opg' od (next_page_id s) npg nd ret"
    by simp
  then show ?thesis
    by (rule split_pins [OF ok local(2)])
       (use ok in \<open>simp add: local_split_fields pool_ok_def\<close>)
qed

lemma SplitInsert_pins:
  assumes "SplitInsert N H s key val = Some r"
  shows "pool_ok s \<longrightarrow> (\<forall>ret s'. r = Inr (ret, s') \<longrightarrow> pins s' = pins s \<and> pool_ok s')"
proof (rule SplitInsert.raw_induct
    [where P = "\<lambda>N H s key val r. pool_ok s \<longrightarrow>
        (\<forall>ret s'. r = Inr (ret, s') \<longrightarrow> pins s' = pins s \<and> pool_ok s')", OF _ assms],
    goal_cases)
  case (1 loop N H s key val r)
  show ?case
  proof (intro impI allI)
    fix ret s'
    assume ok: "pool_ok s" and r: "r = Inr (ret, s')"
    show "pins s' = pins s \<and> pool_ok s'"
    proof (cases "SplitInsert_once N H s key val")
      case (Inl e)
      then show ?thesis using 1(2) r by simp
    next
      case (Inr x)
      note o = SplitInsert_once_pins [OF ok Inr]
      show ?thesis
      proof (cases x)
        case (Returned ret' s1)
        then show ?thesis using Inr o 1(2) r by (simp add: result_state_def)
      next
        case (Retry s1)
        then have c: "loop N H s1 key val = Some r" using Inr 1(2) by simp
        have o1: "pins s1 = pins s" "pool_ok s1" using o Retry by (simp_all add: result_state_def)
        from 1(1) [OF c] o1 r show ?thesis by simp
      qed
    qed
  qed
qed

lemma Insert_first_pins:
  assumes "pool_ok s" "bucket_pages s p = Some b"
  shows "pins (snd (UnpinPage (snd (UnpinPage
           (put_bucket (FetchPage (FetchPage s (directory_page_id s)) p) p pg)
           (dir_page_id (dir_page s)) False)) p flag)) = pins s"
    and "pool_ok (snd (UnpinPage (snd (UnpinPage
           (put_bucket (FetchPage (FetchPage s (directory_page_id s)) p) p pg)
           (dir_page_id (dir_page s)) False)) p flag))"
  using assms by (auto simp add: UnpinPage_pins pool_ok_def fun_eq_iff)

lemma Insert_pins:
  assumes ok: "pool_ok s" and r: "Insert N H s key val = Some (Inr (ret, s'))"
  shows "pins s' = pins s \<and> pool_ok s'"
proof -
  let ?p = "KeyToPageId H key (dir_page s)"
  from r obtain b where b: "bucket_pages s ?p = Some b"
    by (auto simp add: Insert_def FetchDirectoryPage_def FetchBucketPage_def split: option.splits)
  obtain flag pg where bi: "bucket_Insert N b key val = (flag, pg)"
    by (cases "bucket_Insert N b key val")
  let ?s5 = "snd (UnpinPage (snd (UnpinPage
           (put_bucket (FetchPage (FetchPage s (directory_page_id s)) ?p) ?p pg)
           (dir_page_id (dir_page s)) False)) ?p flag)"
  note f = Insert_first_pins [OF ok b, of pg flag]
  have e: "Insert N H s key val =
      (if \<not> flag then SplitInsert N H ?s5 key val else Some (Inr (flag, ?s5)))"
    by (simp add: Insert_def FetchDirectoryPage_def FetchBucketPage_def b bi Let_def)
  show ?thesis
  proof (cases flag)
    case True
    then show ?thesis using r e f by simp
  next
    case False
    then have "SplitInsert N H ?s5 key val = Some (Inr (ret, s'))" using r e by simp
    from SplitInsert_pins [OF this] show ?thesis using f by simp
  qed
qed

lemma GetValue_pins:
  assumes "GetValue N H s key res = Inr (flag, res', s')"
  shows "pins s' = pins s \<and> (pool_ok s \<longrightarrow> pool_ok s')"
  using assms
  by (auto simp add: GetValue_def FetchDirectoryPage_def FetchBucketPage_def Let_def
      UnpinPage_pins pool_ok_def fun_eq_iff split: option.splits prod.splits)

lemma GetGlobalDepth_pins:
  assumes "ExtendibleHashTable_GetGlobalDepth s = Inr (g, s')"
  shows "pins s' = pins s \<and> (pool_ok s \<longrightarrow> pool_ok s')"
  using assms
  by (auto simp add: ExtendibleHashTable_GetGlobalDepth_def FetchDirectoryPage_def Let_def
      UnpinPage_def FetchPage_def pool_ok_def fun_eq_iff split: prod.splits if_splits)

lemma VerifyIntegrity_pins:
  assumes "VerifyIntegrity s = Inr s'"
  shows "pins s' = pins s \<and> (pool_ok s \<longrightarrow> pool_ok s')"
  using assms
  by (auto simp add: VerifyIntegrity_def FetchDirectoryPage_def Let_def
      UnpinPage_def FetchPage_def pool_ok_def fun_eq_iff split: prod.splits if_splits)

lemma Merge_iter_pins:
  assumes ok: "pool_ok s" and r: "Merge_iter N s bucket_index = Inr (s', nx)"
  shows "pins s' = pins s \<and> pool_ok s' \<and> directory_page_id s' = directory_page_id s"
  using r
proof (cases rule: Merge_iter_cases)
  case (stop b)
  then show ?thesis
    using ok by (auto simp add: UnpinPage_pins pool_ok_def fun_eq_iff)
next
  case (shrink b)
  let ?p = "bucket_page_ids (dir_page s) bucket_index"
  let ?t = "snd (UnpinPage (put_dir (FetchPage s ?p) (merge_dir (dir_page s) bucket_index)) ?p False)"
  have p: "pins s' = pins s"
    using shrink(1) by (auto simp add: shrink(5) UnpinPage_pins fun_eq_iff)
  have "bucket_pages s' q \<noteq> None \<longrightarrow> bucket_pages s q \<noteq> None" for q
    using DeletePage_pages [of ?t ?p q] by (simp add: shrink(5))
  then have "pool_ok s'"
    using ok unfolding pool_ok_def p
    by (simp add: shrink(5) merge_dir_def merged_fields DecrGlobalDepth_def)
  with p show ?thesis by (simp add: shrink(5))
next
  case (keep b)
  let ?p = "bucket_page_ids (dir_page s) bucket_index"
  let ?t = "snd (UnpinPage (put_dir (FetchPage s ?p) (merge_dir (dir_page s) bucket_index)) ?p False)"
  have p: "pins s' = pins s"
    using keep(1) by (auto simp add: keep(5) UnpinPage_pins fun_eq_iff)
  have "bucket_pages s' q \<noteq> None \<longrightarrow> bucket_pages s q \<noteq> None" for q
    using DeletePage_pages [of ?t ?p q] by (simp add: keep(5))
  then have "pool_ok s'"
    using ok unfolding pool_ok_def p
    by (simp add: keep(5) merge_dir_def merged_fields)
  with p show ?thesis by (simp add: keep(5))
qed

lemma Merge_loop_pins:
  assumes "Merge_loop N s bucket_index dirty_flag = Some r"
  shows "pool_ok s \<longrightarrow> (\<forall>s' f. r = Inr (s', f) \<longrightarrow>
      pins s' = pins s \<and> pool_ok s' \<and> directory_page_id s' = directory_page_id s)"
proof (rule Merge_loop.raw_induct
    [where P = "\<lambda>N s bucket_index dirty_flag r. pool_ok s \<longrightarrow> (\<forall>s' f. r = Inr (s', f) \<longrightarrow>
      pins s' = pins s \<and> pool_ok s' \<and> directory_page_id s' = directory_page_id s)",
     OF _ assms],
    goal_cases)
  case (1 loop N s bucket_index dirty_flag r)
  show ?case
  proof (intro impI allI)
    fix s' f
    assume ok: "pool_ok s" and r: "r = Inr (s', f)"
    show "pins s' = pins s \<and> pool_ok s' \<and> directory_page_id s' = directory_page_id s"
    proof (cases "Merge_iter N s bucket_index")
      case (Inl e)
      then show ?thesis using 1(2) r by simp
    next
      case (Inr x)
      obtain s1 nx where x: "x = (s1, nx)" by (cases x)
      note i = Merge_iter_pins [OF ok Inr [unfolded x]]
      show ?thesis
      proof (cases nx)
        case None
        then show ?thesis using 1(2) r Inr x i by simp
      next
        case (Some next_index)
        then have "loop N s1 next_index True = Some r" using 1(2) Inr x by simp
        from 1(1) [OF this] i r show ?thesis by simp
      qed
    qed
  qed
qed

lemma Merge_pins:
  assumes ok: "pool_ok s" and r: "Merge N H s key val = Some (Inr s')"
  shows "pins s' = pins s \<and> pool_ok s'"
proof -
  let ?s1 = "FetchPage s (directory_page_id s)"
  have ok1: "pool_ok ?s1" using ok by (auto simp add: pool_ok_def)
  from r obtain s2 f where
    l: "Merge_loop N ?s1 (KeyToDirectoryIndex H key (dir_page s)) False = Some (Inr (s2, f))"
    and s': "s' = snd (UnpinPage s2 (dir_page_id (dir_page s2)) f)"
    by (auto simp add: Merge_def FetchDirectoryPage_def split: option.splits sum.splits)
  from Merge_loop_pins [OF l] ok1 have p: "pins s2 = pins ?s1" and ok2: "pool_ok s2"
    and d2: "directory_page_id s2 = directory_page_id s" by simp_all
  have d: "dir_page_id (dir_page s2) = directory_page_id s2"
    using ok2 by (simp add: pool_ok_def)
  have ps: "pins s' = pins s"
    by (auto simp add: s' UnpinPage_pins d d2 p fun_eq_iff)
  have "pool_ok s'"
    using ok2 unfolding pool_ok_def ps [unfolded s'] p s'
    by (auto simp add: d2)
  with ps show ?thesis by simp
qed

lemma Remove_pins:
  assumes ok: "pool_ok s" and r: "Remove N H s key val = Some (Inr (ret, s'))"
  shows "pins s' = pins s \<and> pool_ok s'"
proof -
  let ?p = "KeyToPageId H key (dir_page s)"
  from r obtain b where b: "bucket_pages s ?p = Some b"
    by (auto simp add: Remove_def FetchDirectoryPage_def FetchBucketPage_def split: option.splits)
  obtain flag pg where bi: "bucket_Remove N b key val = (flag, pg)"
    by (cases "bucket_Remove N b key val")
  let ?s5 = "snd (UnpinPage (snd (UnpinPage
           (put_bucket (FetchPage (FetchPage s (directory_page_id s)) ?p) ?p pg)
           (dir_page_id (dir_page s)) False)) ?p flag)"
  note f = Insert_first_pins [OF ok b, of pg flag]
  have e: "Remove N H s key val =
      (if flag then (case Merge N H ?s5 key val of
                       None \<Rightarrow> None
                     | Some (Inl e) \<Rightarrow> Some (Inl e)
                     | Some (Inr s6) \<Rightarrow> Some (Inr (flag, s6)))
       else Some (Inr (flag, ?s5)))"
    by (simp add: Remove_def FetchDirectoryPage_def FetchBucketPage_def b bi Let_def)
  show ?thesis
  proof (cases flag)
    case False
    then show ?thesis using r e f by simp
  next
    case True
    then have "Merge N H ?s5 key val = Some (Inr s')"
      using r e by (auto split: option.splits sum.splits)
    from Merge_pins [OF f(2) this] show ?thesis using f by simp
  qed
qed

lemma pool_ok_new: "pool_ok (ExtendibleHashTable_new N)"
  by (simp add: pool_ok_def ExtendibleHashTable_new_def)

text \<open>
  Claim C4. The pin count of a page changes only in \<open>FetchPage\<close> (one more), \<open>NewPage\<close> (set to
  one on a page that did not exist) and \<open>UnpinPage\<close> (one less), so the function \<open>pins\<close> of the
  state after an operation equals the one before exactly when every fetch and every new page
  of the operation is matched by one unpin of the same page. This holds for every index
  operation that completes (that ends without a failed assertion), from every state of the
  pool that satisfies \<open>pool_ok\<close>: the directory page records its own page id, the directory
  and the bucket pages were allocated before \<open>next_page_id\<close>, and no page that is still to be
  allocated is pinned. The constructor establishes \<open>pool_ok\<close> and every completed operation
  keeps it. \<open>GetGlobalDepth\<close> and \<open>VerifyIntegrity\<close> issue their unpin inside \<open>assert\<close>; the
  assertions are taken to be compiled in.
\<close>

theorem index_operations_restore_pin_counts:
  assumes "pool_ok s"
  shows "(GetValue N H s k1 res = Inr (flag, res', s1) \<longrightarrow> pins s1 = pins s \<and> pool_ok s1) \<and>
    (Insert N H s k2 v2 = Some (Inr (ret, s2)) \<longrightarrow> pins s2 = pins s \<and> pool_ok s2) \<and>
    (Remove N H s k3 v3 = Some (Inr (ret', s3)) \<longrightarrow> pins s3 = pins s \<and> pool_ok s3) \<and>
    (ExtendibleHashTable_GetGlobalDepth s = Inr (g, s4) \<longrightarrow> pins s4 = pins s \<and> pool_ok s4) \<and>
    (VerifyIntegrity s = Inr s5 \<longrightarrow> pins s5 = pins s \<and> pool_ok s5) \<and>
    pool_ok (ExtendibleHashTable_new N)"
  using assms GetValue_pins [of N H s k1 res flag res' s1]
    Insert_pins [of s N H k2 v2 ret s2] Remove_pins [of s N H k3 v3 ret' s3]
    GetGlobalDepth_pins [of s g s4] VerifyIntegrity_pins [of s s5] pool_ok_new [of N]
  by blast


definition completed :: "fault + 'a \<Rightarrow> bool" where
  "completed r = (case r of Inl e \<Rightarrow> False | Inr x \<Rightarrow> True)"

lemma completed_Inr: "completed r \<Longrightarrow> \<exists>x. r = Inr x"
  by (cases r) (simp_all add: completed_def)

definition one_even_page :: HashTableBucketPage where
  "one_even_page = \<lparr>occupied = [128], readable = [128], array = [(2, 2), (0, 0)]\<rparr>"

definition two_bucket_table :: ExtendibleHashTable where
  "two_bucket_table =
     \<lparr>directory_page_id = 0,
      dir_page = \<lparr>dir_page_id = 0, global_depth = 1, local_depths = (\<lambda>_. 0)(0 := 1, 1 := 1),
                  bucket_page_ids = (\<lambda>_. 0)(0 := 1, 1 := 2)\<rparr>,
      bucket_pages = [1 \<mapsto> one_even_page, 2 \<mapsto> two_odd_page],
      pins = (\<lambda>_. 0),
      dirty = (\<lambda>_. False),
      next_page_id = 3\<rparr>"

lemma pool_ok_two_bucket_table: "pool_ok two_bucket_table"
  by (simp add: pool_ok_def two_bucket_table_def)

lemma two_bucket_table_runs:
  "completed (GetValue 2 Hid two_bucket_table 1 [])"
  "(case Insert 2 Hid two_bucket_table 4 4 of Some r \<Rightarrow> completed r | None \<Rightarrow> False)"
  "(case Remove 2 Hid two_bucket_table 2 2 of Some r \<Rightarrow> completed r | None \<Rightarrow> False)"
  "completed (ExtendibleHashTable_GetGlobalDepth two_bucket_table)"
  "completed (VerifyIntegrity two_bucket_table)"
  by code_simp+

theorem index_operations_restore_pin_counts_witness:
  "pool_ok two_bucket_table \<and>
   (\<exists>flag res s'. GetValue 2 Hid two_bucket_table 1 [] = Inr (flag, res, s') \<and>
      pins s' = pins two_bucket_table) \<and>
   (\<exists>ret s'. Insert 2 Hid two_bucket_table 4 4 = Some (Inr (ret, s')) \<and>
      pins s' = pins two_bucket_table) \<and>
   (\<exists>ret s'. Remove 2 Hid two_bucket_table 2 2 = Some (Inr (ret, s')) \<and>
      pins s' = pins two_bucket_table) \<and>
   (\<exists>g s'. ExtendibleHashTable_GetGlobalDepth two_bucket_table = Inr (g, s') \<and>
      pins s' = pins two_bucket_table) \<and>
   (\<exists>s'. VerifyIntegrity two_bucket_table = Inr s' \<and> pins s' = pins two_bucket_table)"
proof -
  obtain flag res s1 where 1: "GetValue 2 Hid two_bucket_table 1 [] = Inr (flag, res, s1)"
    using completed_Inr [OF two_bucket_table_runs(1)] by (metis prod.exhaust)
  obtain ret s2 where 2: "Insert 2 Hid two_bucket_table 4 4 = Some (Inr (ret, s2))"
    using two_bucket_table_runs(2)
    by (auto simp add: completed_def split: option.splits sum.splits)
  obtain ret' s3 where 3: "Remove 2 Hid two_bucket_table 2 2 = Some (Inr (ret', s3))"
    using two_bucket_table_runs(3)
    by (auto simp add: completed_def split: option.splits sum.splits)
  obtain g s4 where 4: "ExtendibleHashTable_GetGlobalDepth two_bucket_table = Inr (g, s4)"
    using completed_Inr [OF two_bucket_table_runs(4)] by (metis prod.exhaust)
  obtain s5 where 5: "VerifyIntegrity two_bucket_table = Inr s5"
    using completed_Inr [OF two_bucket_table_runs(5)] by blast
  note t = index_operations_restore_pin_counts [OF pool_ok_two_bucket_table,
      where N = 2 and H = Hid and ?k1.0 = 1 and res = "[]" and flag = flag
        and res' = res and ?s1.0 = s1 and ?k2.0 = 4 and ?v2.0 = 4 and ret = ret and ?s2.0 = s2
        and ?k3.0 = 2 and ?v3.0 = 2 and ret' = ret' and ?s3.0 = s3 and g = g and ?s4.0 = s4
        and ?s5.0 = s5]
  show ?thesis
    using t 1 2 3 4 5 pool_ok_two_bucket_table by blast
qed

section \<open>The directory invariant\<close>






subsection \<open>Growing the directory and splitting the bucket at full depth\<close>







subsection \<open>Splitting a bucket below the global depth\<close>





subsection \<open>Merging a bucket into its split image, and shrinking the directory\<close>








subsection \<open>The directory invariant across the index operations\<close>













section \<open>Sequences of index operations\<close>











section \<open>The directory invariants D-1 to D-5\<close>



















end
